theory Spec2Isabelle
  imports Complex_Main "HOL-Library.Sublist"
begin

section \<open>Characters and strings\<close>

text \<open>
  A Python \<open>str\<close> is modelled as a \<open>string\<close>, a list of \<open>char\<close>; a \<open>char\<close> stands for
  the code point with the same number, so the model covers the texts whose code points
  are below 256. The character classes are the ones Python's \<open>re\<close> and \<open>str\<close> methods use
  on those code points: \<open>\s\<close> and \<open>str.strip\<close> share \<open>isspace\<close>, \<open>\d\<close> is the decimal
  digits, \<open>\w\<close> is the alphanumerics and the underscore.
\<close>

definition isspace :: "char \<Rightarrow> bool" where
  "isspace c = (of_char c \<in> set [9, 10, 11, 12, 13, 28, 29, 30, 31, 32, 133, 160 :: nat])"

definition isdecimal :: "char \<Rightarrow> bool" where
  "isdecimal c = (let n = of_char c :: nat in 48 \<le> n \<and> n \<le> 57)"

definition isalpha_char :: "char \<Rightarrow> bool" where
  "isalpha_char c = (let n = of_char c :: nat in
     (65 \<le> n \<and> n \<le> 90) \<or> (97 \<le> n \<and> n \<le> 122) \<or> n = 170 \<or> n = 181 \<or> n = 186 \<or>
     (192 \<le> n \<and> n \<le> 214) \<or> (216 \<le> n \<and> n \<le> 246) \<or> (248 \<le> n \<and> n \<le> 255))"

definition isalnum_char :: "char \<Rightarrow> bool" where
  "isalnum_char c = (isalpha_char c \<or> isdecimal c \<or>
     of_char c \<in> set [178, 179, 185, 188, 189, 190 :: nat])"

definition is_word_char :: "char \<Rightarrow> bool" where
  "is_word_char c = (isalnum_char c \<or> c = CHR ''_'')"

definition lower_char :: "char \<Rightarrow> char" where
  "lower_char c = (let n = of_char c :: nat in
     if (65 \<le> n \<and> n \<le> 90) \<or> (192 \<le> n \<and> n \<le> 222 \<and> n \<noteq> 215)
     then char_of (n + 32) else c)"

definition lower :: "string \<Rightarrow> string" where
  "lower s = map lower_char s"

definition strip :: "string \<Rightarrow> string" where
  "strip s = rev (dropWhile isspace (rev (dropWhile isspace s)))"

definition isalpha :: "string \<Rightarrow> bool" where
  "isalpha s = (s \<noteq> [] \<and> list_all isalpha_char s)"

definition startswith :: "string \<Rightarrow> string \<Rightarrow> bool" where
  "startswith s p = prefix p s"

definition endswith :: "string \<Rightarrow> string \<Rightarrow> bool" where
  "endswith s p = suffix p s"

text \<open>Python's \<open>x in s\<close> on strings: \<open>x\<close> occurs in \<open>s\<close> as a contiguous substring.\<close>

definition contains :: "string \<Rightarrow> string \<Rightarrow> bool" where
  "contains s x = sublist x s"

section \<open>The normalizer: \<open>preprocess_text\<close>\<close>

text \<open>
  Each \<open>re.sub\<close> of \<open>preprocess_text\<close> is one function: the scan goes from left to right,
  a match is replaced and the scan goes on behind it, a position without a match keeps
  its character.
\<close>

text \<open>\<open>re.sub(r'\r\n', '\n', text)\<close>\<close>

fun sub_crlf :: "string \<Rightarrow> string" where
  "sub_crlf (c # d # cs) =
     (if c = CHR 0x0D \<and> d = CHR 0x0A then CHR 0x0A # sub_crlf cs else c # sub_crlf (d # cs))"
| "sub_crlf cs = cs"

text \<open>\<open>re.sub(r'\s+', ' ', text)\<close>: a maximal run of whitespace becomes one space.\<close>

function sub_spaces :: "string \<Rightarrow> string" where
  "sub_spaces [] = []"
| "sub_spaces (c # cs) =
     (if isspace c then CHR '' '' # sub_spaces (dropWhile isspace cs) else c # sub_spaces cs)"
  by pat_completeness auto
termination
  by (relation "measure length") (auto simp: less_Suc_eq_le length_dropWhile_le)

text \<open>\<open>re.sub(r'\n+', '\n', text)\<close>: a maximal run of newlines becomes one newline.\<close>

function sub_newlines :: "string \<Rightarrow> string" where
  "sub_newlines [] = []"
| "sub_newlines (c # cs) =
     (if c = CHR 0x0A then CHR 0x0A # sub_newlines (dropWhile (\<lambda>d. d = CHR 0x0A) cs)
      else c # sub_newlines cs)"
  by pat_completeness auto
termination
  by (relation "measure length") (auto simp: less_Suc_eq_le length_dropWhile_le)

text \<open>
  \<open>re.sub(r'[^\w\s.,!?;:()\-\'"]+', '', text)\<close>: every character outside the class is
  deleted. \<open>CHR 0x27\<close> is the apostrophe and \<open>CHR 0x22\<close> the double quote.
\<close>

definition keep_char :: "char \<Rightarrow> bool" where
  "keep_char c = (is_word_char c \<or> isspace c \<or> c \<in> set (''.,!?;:()-'' @ [CHR 0x27, CHR 0x22]))"

definition sub_unusual :: "string \<Rightarrow> string" where
  "sub_unusual s = filter keep_char s"

text \<open>
  \<open>re.sub(r'Page \d+', '', text, flags=re.IGNORECASE)\<close>. \<open>match_page s\<close> matches the
  pattern at the start of \<open>s\<close> and returns what follows the match: the four letters
  compared after lowering (\<open>ieq\<close>), one space, and the longest run of digits, at least
  one.
\<close>

definition ieq :: "char \<Rightarrow> char \<Rightarrow> bool" where
  "ieq c l = (lower_char c = lower_char l)"

fun match_page :: "string \<Rightarrow> string option" where
  "match_page (p # a # g # e # sp # d # rest) =
     (if ieq p CHR ''P'' \<and> ieq a CHR ''a'' \<and> ieq g CHR ''g'' \<and> ieq e CHR ''e'' \<and>
         sp = CHR '' '' \<and> isdecimal d
      then Some (dropWhile isdecimal rest) else None)"
| "match_page s = None"

lemma match_page_shorter:
  "match_page s = Some rest \<Longrightarrow> length rest < length s"
  by (induction s rule: match_page.induct)
     (auto split: if_splits intro: le_less_trans [OF length_dropWhile_le])

function sub_page :: "string \<Rightarrow> string" where
  "sub_page [] = []"
| "sub_page (c # cs) =
     (case match_page (c # cs) of Some rest \<Rightarrow> sub_page rest | None \<Rightarrow> c # sub_page cs)"
  by pat_completeness auto
termination
  by (relation "measure length") (auto dest: match_page_shorter)

text \<open>
  \<open>re.sub(r'\d+/\d+', '', text)\<close>: the first \<open>\d+\<close> takes the whole run of digits at the
  position (a shorter choice would be followed by a digit, not by the slash), then the
  slash, then the longest run of digits, at least one.
\<close>

definition match_fraction :: "string \<Rightarrow> string option" where
  "match_fraction s =
     (if takeWhile isdecimal s = [] then None
      else case dropWhile isdecimal s of
             sl # d # rest \<Rightarrow>
               if sl = CHR ''/'' \<and> isdecimal d then Some (dropWhile isdecimal rest) else None
           | _ \<Rightarrow> None)"

lemma match_fraction_shorter:
  "match_fraction s = Some rest \<Longrightarrow> length rest < length s"
proof -
  assume m: "match_fraction s = Some rest"
  then obtain sl d r where d: "dropWhile isdecimal s = sl # d # r" and r: "rest = dropWhile isdecimal r"
    by (auto simp: match_fraction_def split: if_splits list.splits)
  have "length rest \<le> length r" using r by (simp add: length_dropWhile_le)
  also have "\<dots> < length (dropWhile isdecimal s)" using d by simp
  also have "\<dots> \<le> length s" by (rule length_dropWhile_le)
  finally show ?thesis .
qed

function sub_fraction :: "string \<Rightarrow> string" where
  "sub_fraction [] = []"
| "sub_fraction (c # cs) =
     (case match_fraction (c # cs) of Some rest \<Rightarrow> sub_fraction rest | None \<Rightarrow> c # sub_fraction cs)"
  by pat_completeness auto
termination
  by (relation "measure length") (auto dest: match_fraction_shorter)

definition preprocess_text :: "string \<Rightarrow> string" where
  "preprocess_text text =
     strip (sub_fraction (sub_page (sub_unusual (sub_newlines (sub_spaces (sub_crlf text))))))"

definition no_edge_whitespace :: "string \<Rightarrow> bool" where
  "no_edge_whitespace s = (s = [] \<or> (\<not> isspace (hd s) \<and> \<not> isspace (last s)))"

definition no_space_run :: "string \<Rightarrow> bool" where
  "no_space_run s = (\<not> contains s ''  '')"

definition no_newline_run :: "string \<Rightarrow> bool" where
  "no_newline_run s = (\<not> contains s [CHR 0x0A, CHR 0x0A])"

fun has_page_marker :: "string \<Rightarrow> bool" where
  "has_page_marker [] = False"
| "has_page_marker (c # cs) = (match_page (c # cs) \<noteq> None \<or> has_page_marker cs)"

section \<open>Data model and collaborators\<close>

text \<open>A FAQ pair is the dictionary \<open>{"question": q, "answer": a}\<close>.\<close>

record faq_pair =
  question :: string
  answer :: string

text \<open>
  What the program takes from outside is a parameter of the model, a record of functions:
  NLTK's sentence and word tokenizers, its tagger and its English stop words, the PDF
  reader, the file system and the readability score of \<open>textstat\<close>. A PDF is the list
  of its pages, each with the result of \<open>extract_text\<close> (\<open>Extract_error\<close> when it
  raises), or \<open>None\<close> when opening or parsing the file raises; a text file is its
  contents, or \<open>None\<close> when reading it raises; the readability score is \<open>None\<close> when
  \<open>flesch_reading_ease\<close> raises. The type \<open>'r\<close> is the type of the score.
\<close>

datatype pdf_page = Extracted string | Extract_error

record 'r env =
  sent_tokenize :: "string \<Rightarrow> string list"
  word_tokenize :: "string \<Rightarrow> string list"
  pos_tag :: "string list \<Rightarrow> (string \<times> string) list"
  stopwords_english :: "string list"
  pdf_pages :: "string \<Rightarrow> pdf_page list option"
  txt_file :: "string \<Rightarrow> string option"
  flesch_reading_ease :: "string \<Rightarrow> 'r option"

text \<open>The fields of \<open>AssignmentFAQGenerator\<close>, as \<open>__init__\<close> sets them.\<close>

record session =
  stop_words :: "string set"
  raw_text :: string
  sentences :: "string list"
  key_concepts :: "string list"
  faq_pairs :: "faq_pair list"

definition init :: "'r env \<Rightarrow> session" where
  "init e = \<lparr>stop_words = set (stopwords_english e), raw_text = [], sentences = [],
     key_concepts = [], faq_pairs = []\<rparr>"

section \<open>Text acquisition\<close>

text \<open>
  The page loop of \<open>extract_from_pdf\<close>: a page with text adds the text and a newline, a
  page without text adds nothing, a raise ends the loop (\<open>None\<close>).
\<close>

fun pdf_loop :: "pdf_page list \<Rightarrow> string \<Rightarrow> string option" where
  "pdf_loop [] text = Some text"
| "pdf_loop (Extracted page_text # ps) text =
     pdf_loop ps (if page_text \<noteq> [] then text @ page_text @ [CHR 0x0A] else text)"
| "pdf_loop (Extract_error # ps) text = None"

definition extract_from_pdf :: "'r env \<Rightarrow> string \<Rightarrow> string" where
  "extract_from_pdf e pdf_path =
     (case pdf_pages e pdf_path of
        None \<Rightarrow> []
      | Some ps \<Rightarrow> (case pdf_loop ps [] of None \<Rightarrow> [] | Some text \<Rightarrow> text))"

definition extract_from_txt :: "'r env \<Rightarrow> string \<Rightarrow> string" where
  "extract_from_txt e txt_path = (case txt_file e txt_path of None \<Rightarrow> [] | Some text \<Rightarrow> text)"

section \<open>Concept extraction\<close>

text \<open>The filter loop of \<open>extract_key_concepts\<close> over the tagged words.\<close>

definition important_tag :: "string \<Rightarrow> bool" where
  "important_tag pos = (startswith pos ''NN'' \<or> startswith pos ''JJ'' \<or> startswith pos ''VB'')"

fun important_words :: "string set \<Rightarrow> (string \<times> string) list \<Rightarrow> string list" where
  "important_words sw [] = []"
| "important_words sw ((word, pos) # rest) =
     (if important_tag pos \<and> word \<notin> sw \<and> 2 < length word \<and> isalpha word
      then word # important_words sw rest else important_words sw rest)"

text \<open>
  \<open>collections.Counter\<close>: a dictionary from element to count that keeps the keys in the
  order of their first insertion, here an association list. \<open>most_common n\<close> is
  \<open>sorted(items, key=count, reverse=True)[:n]\<close>, a stable sort: elements with equal
  counts keep their order; a negative \<open>n\<close> gives the empty list.
\<close>

fun counter_add :: "(string \<times> nat) list \<Rightarrow> string \<Rightarrow> (string \<times> nat) list" where
  "counter_add [] w = [(w, 1)]"
| "counter_add ((k, n) # kvs) w =
     (if k = w then (k, Suc n) # kvs else (k, n) # counter_add kvs w)"

definition Counter :: "string list \<Rightarrow> (string \<times> nat) list" where
  "Counter ws = foldl counter_add [] ws"

definition most_common :: "int \<Rightarrow> (string \<times> nat) list \<Rightarrow> (string \<times> nat) list" where
  "most_common n c = take (nat n) (sort_key (\<lambda>(w, k). - int k) c)"

definition extract_key_concepts :: "'r env \<Rightarrow> session \<Rightarrow> string \<Rightarrow> int \<Rightarrow> string list" where
  "extract_key_concepts e self text top_n =
     (let words = word_tokenize e (lower text);
          pos_tags = pos_tag e words;
          important = important_words (stop_words self) pos_tags;
          freq = Counter important
      in map fst (most_common top_n freq))"

section \<open>Question generators\<close>

definition any_in :: "string list \<Rightarrow> string \<Rightarrow> bool" where
  "any_in inds s = list_ex (\<lambda>ind. contains s ind) inds"

definition definition_indicators :: "string list" where
  "definition_indicators =
     [''is'', ''are'', ''defined as'', ''refers to'', ''means'', ''definition'', ''is called'',
      ''is known as'']"

text \<open>The inner loop of \<open>generate_definition_questions\<close>.\<close>

fun definition_sentences :: "string \<Rightarrow> string list \<Rightarrow> string list" where
  "definition_sentences concept_lower [] = []"
| "definition_sentences concept_lower (sent # rest) =
     (let s_low = lower sent
      in if contains s_low concept_lower \<and> any_in definition_indicators s_low
         then strip sent # definition_sentences concept_lower rest
         else definition_sentences concept_lower rest)"

text \<open>
  \<open>max(xs, key=len)\<close> on a non-empty list: the first element of the greatest length; a
  later element replaces the best one only when it is strictly longer.
\<close>

fun max_len :: "string \<Rightarrow> string list \<Rightarrow> string" where
  "max_len best [] = best"
| "max_len best (x # xs) = max_len (if length best < length x then x else best) xs"

fun definition_loop :: "string list \<Rightarrow> string list \<Rightarrow> faq_pair list" where
  "definition_loop sents [] = []"
| "definition_loop sents (concept # rest) =
     (let q = ''What is '' @ concept @ ''?'';
          ds = definition_sentences (lower concept) sents
      in (case ds of
            [] \<Rightarrow> definition_loop sents rest
          | d # ds' \<Rightarrow> \<lparr>question = q, answer = max_len d ds'\<rparr> # definition_loop sents rest))"

definition generate_definition_questions :: "'r env \<Rightarrow> string list \<Rightarrow> string \<Rightarrow> faq_pair list" where
  "generate_definition_questions e concepts text = definition_loop (sent_tokenize e text) concepts"

definition process_indicators :: "string list" where
  "process_indicators =
     [''first'', ''then'', ''next'', ''finally'', ''step'', ''process'', ''method'', ''procedure'',
      ''how to'', ''in order to'', ''steps'']"

fun how_loop :: "'r env \<Rightarrow> string list \<Rightarrow> faq_pair list" where
  "how_loop e [] = []"
| "how_loop e (sentence # rest) =
     (let words = word_tokenize e (lower sentence);
          pos_tags = pos_tag e words;
          main_verbs = map fst (filter (\<lambda>(w, p). startswith p ''VB'') pos_tags)
      in (case main_verbs of
            [] \<Rightarrow> how_loop e rest
          | main_verb # _ \<Rightarrow>
              \<lparr>question = ''How do you '' @ main_verb @ '' in this context?'',
               answer = strip sentence\<rparr> # how_loop e rest))"

definition generate_how_questions :: "'r env \<Rightarrow> string \<Rightarrow> faq_pair list" where
  "generate_how_questions e text =
     (let sents = sent_tokenize e text;
          process_sentences = filter (\<lambda>s. any_in process_indicators (lower s)) sents
      in how_loop e (take 5 process_sentences))"

definition reason_indicators :: "string list" where
  "reason_indicators =
     [''because'', ''due to'', ''since'', ''as a result'', ''therefore'', ''consequently'',
      ''reason'', ''cause'', ''leads to'', ''results in'']"

definition why_question :: string where
  "why_question = ''Why is this concept important in the assignment?''"

fun why_loop :: "string list \<Rightarrow> faq_pair list \<Rightarrow> faq_pair list" where
  "why_loop [] questions = questions"
| "why_loop (sent # rest) questions =
     (let s_low = lower sent
      in if any_in reason_indicators s_low
         then why_loop rest (questions @ [\<lparr>question = why_question, answer = strip sent\<rparr>])
         else why_loop rest questions)"

definition generate_why_questions :: "'r env \<Rightarrow> string \<Rightarrow> faq_pair list" where
  "generate_why_questions e text = take 3 (why_loop (sent_tokenize e text) [])"

definition comparison_words :: "string list" where
  "comparison_words =
     [''versus'', ''vs'', ''compared to'', ''difference between'', ''similar to'', ''unlike'',
      ''whereas'', ''however'', ''but'']"

definition fallback_answer :: "string \<Rightarrow> string \<Rightarrow> string" where
  "fallback_answer c1 c2 =
     ''Both '' @ c1 @ '' and '' @ c2 @
     '' are important concepts in this assignment that serve different roles in the overall context.''"

text \<open>
  The body of the loop of \<open>generate_comparison_questions\<close> at index \<open>i\<close>; the loop runs
  over \<open>range(min(len(concepts)-1, 3))\<close>, which is empty when the bound is not positive.
\<close>

definition comparison_pair :: "string list \<Rightarrow> string list \<Rightarrow> nat \<Rightarrow> faq_pair" where
  "comparison_pair comparison_sentences concepts i =
     (let c1 = concepts ! i;
          c2 = concepts ! (i + 1);
          q = ''What is the difference between '' @ c1 @ '' and '' @ c2 @ ''?'';
          relevant = filter (\<lambda>s. contains (lower s) (lower c1) \<and> contains (lower s) (lower c2))
                       comparison_sentences;
          a = (case relevant of r # _ \<Rightarrow> strip r | [] \<Rightarrow> fallback_answer c1 c2)
      in \<lparr>question = q, answer = a\<rparr>)"

definition generate_comparison_questions :: "'r env \<Rightarrow> string \<Rightarrow> string list \<Rightarrow> faq_pair list" where
  "generate_comparison_questions e text concepts =
     (let sents = sent_tokenize e text;
          comparison_sentences = filter (\<lambda>s. any_in comparison_words (lower s)) sents
      in map (comparison_pair comparison_sentences concepts)
           [0 ..< nat (min (int (length concepts) - 1) 3)])"

section \<open>Deduplication\<close>

definition question_key :: "faq_pair \<Rightarrow> string" where
  "question_key p = strip (lower (question p))"

fun dedup_loop :: "faq_pair list \<Rightarrow> faq_pair list \<Rightarrow> string set \<Rightarrow> faq_pair list" where
  "dedup_loop [] unique seen = unique"
| "dedup_loop (p # ps) unique seen =
     (let key = question_key p
      in if key \<notin> seen then dedup_loop ps (unique @ [p]) (insert key seen)
         else dedup_loop ps unique seen)"

definition remove_duplicate_questions :: "faq_pair list \<Rightarrow> faq_pair list" where
  "remove_duplicate_questions faq_pairs_in = dedup_loop faq_pairs_in [] {}"

section \<open>The pipeline and the statistics\<close>

definition process_document :: "'r env \<Rightarrow> string \<Rightarrow> session \<Rightarrow> bool \<times> session" where
  "process_document e input_str self =
     (let self = self\<lparr>raw_text := [], sentences := [], key_concepts := [], faq_pairs := []\<rparr>;
          input_lower = strip (lower input_str);
          self = self\<lparr>raw_text :=
                   if endswith input_lower ''.pdf'' then extract_from_pdf e input_str
                   else if endswith input_lower ''.txt'' then extract_from_txt e input_str
                   else input_str\<rparr>
      in if raw_text self = [] then (False, self)
         else
           let processed = preprocess_text (raw_text self);
               self = self\<lparr>sentences := sent_tokenize e processed\<rparr>;
               self = self\<lparr>key_concepts := extract_key_concepts e self processed 15\<rparr>;
               definition_qs = generate_definition_questions e (key_concepts self) processed;
               how_qs = generate_how_questions e processed;
               why_qs = generate_why_questions e processed;
               comparison_qs = generate_comparison_questions e processed (key_concepts self);
               self = self\<lparr>faq_pairs := definition_qs @ how_qs @ why_qs @ comparison_qs\<rparr>;
               self = self\<lparr>faq_pairs := remove_duplicate_questions (faq_pairs self)\<rparr>
           in (True, self))"

text \<open>\<open>str.split()\<close>: the maximal runs of characters that are not whitespace.\<close>

fun split_acc :: "string \<Rightarrow> string \<Rightarrow> string list" where
  "split_acc acc [] = (if acc = [] then [] else [acc])"
| "split_acc acc (c # cs) =
     (if isspace c then (if acc = [] then split_acc [] cs else acc # split_acc [] cs)
      else split_acc (acc @ [c]) cs)"

definition split_ws :: "string \<Rightarrow> string list" where
  "split_ws s = split_acc [] s"

text \<open>
  The dictionary \<open>get_statistics\<close> returns is either the record with the one key
  \<open>error\<close> or the record of the seven statistics (the key \<open>key_concepts\<close> is the field
  \<open>top_key_concepts\<close>, the session has a field of the first name). The reading level is the score, or
  \<open>"N/A"\<close> when the scoring raised; the average sentence length is the exact quotient
  (the program computes its floating-point value).
\<close>

datatype 'r reading = Score 'r | Not_available

record 'r statistics =
  total_characters :: nat
  total_sentences :: nat
  total_faqs :: nat
  key_concepts_found :: nat
  top_key_concepts :: "string list"
  reading_level :: "'r reading"
  avg_sentence_length :: rat

datatype 'r stats_result = Error_record string | Statistics "'r statistics"

definition get_statistics :: "'r env \<Rightarrow> session \<Rightarrow> 'r stats_result" where
  "get_statistics e self =
     (if raw_text self = [] then Error_record ''No document processed yet.''
      else Statistics
        \<lparr>total_characters = length (raw_text self),
         total_sentences = length (sentences self),
         total_faqs = length (faq_pairs self),
         key_concepts_found = length (key_concepts self),
         top_key_concepts = take 10 (key_concepts self),
         reading_level =
           (case flesch_reading_ease e (raw_text self) of Some r \<Rightarrow> Score r | None \<Rightarrow> Not_available),
         avg_sentence_length =
           (if sentences self \<noteq> []
            then of_nat (length (split_ws (raw_text self))) / of_nat (length (sentences self))
            else 0)\<rparr>)"

section \<open>A deterministic stand-in for the collaborators\<close>

text \<open>
  The examples run the program with these collaborators: sentences end at a full stop,
  words are split at whitespace, a word of \<open>demo_verbs\<close> is tagged \<open>VB\<close> and every other
  word \<open>NN\<close>, no file can be read, and the score is the number of characters.
\<close>

fun demo_sentences :: "string \<Rightarrow> string \<Rightarrow> string list" where
  "demo_sentences acc [] = (if acc = [] then [] else [acc])"
| "demo_sentences acc (c # cs) =
     (if c = CHR ''.'' then (acc @ [c]) # demo_sentences [] cs else demo_sentences (acc @ [c]) cs)"

definition demo_verbs :: "string list" where
  "demo_verbs = [''check'', ''reduce'']"

definition demo_env :: "nat env" where
  "demo_env =
     \<lparr>sent_tokenize = demo_sentences [],
      word_tokenize = split_ws,
      pos_tag = map (\<lambda>w. (w, if w \<in> set demo_verbs then ''VB'' else ''NN'')),
      stopwords_english = [''the'', ''is'', ''are'', ''they'', ''then'', ''and''],
      pdf_pages = (\<lambda>p. None),
      txt_file = (\<lambda>p. None),
      flesch_reading_ease = (\<lambda>t. Some (length t))\<rparr>"

section \<open>The claims' words as definitions, and the inputs of the examples\<close>

text \<open>
  The comparison pool is the list of sentences that hold a comparison word; a sentence
  mentions both concepts when each occurs in it, letter case ignored. The positions a
  deduplication keeps are those whose question key occurs at no earlier position. A
  sentence is a candidate definition of a concept when it holds the concept and one of
  the definition indicators, letter case ignored.
\<close>

definition comparison_pool :: "'r env \<Rightarrow> string \<Rightarrow> string list" where
  "comparison_pool e text = filter (\<lambda>s. any_in comparison_words (lower s)) (sent_tokenize e text)"

definition mentions_both :: "string \<Rightarrow> string \<Rightarrow> string \<Rightarrow> bool" where
  "mentions_both c1 c2 s = (contains (lower s) (lower c1) \<and> contains (lower s) (lower c2))"

definition demo_comparison_text :: string where
  "demo_comparison_text = ''Cache is fast but disk is slow. Latency matters.''"

definition first_question_positions :: "faq_pair list \<Rightarrow> nat list" where
  "first_question_positions ps =
     filter (\<lambda>i. \<forall>j<i. question_key (ps ! j) \<noteq> question_key (ps ! i)) [0 ..< length ps]"

definition demo_pairs :: "faq_pair list" where
  "demo_pairs =
     [\<lparr>question = ''Why?'', answer = ''first''\<rparr>,
      \<lparr>question = '' why? '', answer = ''second''\<rparr>,
      \<lparr>question = ''What?'', answer = ''third''\<rparr>,
      \<lparr>question = ''WHY?'', answer = ''first''\<rparr>]"


definition definition_candidate :: "string \<Rightarrow> string \<Rightarrow> bool" where
  "definition_candidate concept s =
     (contains (lower s) (lower concept) \<and> any_in definition_indicators (lower s))"

definition demo_definition_text :: string where
  "demo_definition_text =
     ''A cache is a fast storage layer. The cache is a layer that is defined as fast storage. Disk latency matters.''"

definition demo_document :: string where
  "demo_document = ''Caches help because disks are slow. Use them since latency matters.''"

text \<open>
  The kept tokens are the words of the tagged tokens of the lowercased text whose tag
  begins with \<open>NN\<close>, \<open>JJ\<close> or \<open>VB\<close> and that are no stop word, longer than two
  characters and alphabetic, in order and with repetitions; the frequency of
  a word is the number of its occurrences among them. A word ranks before another when
  its frequency is greater, or equal with an earlier first occurrence. The invariant of
  the counter: the keys are the distinct words in the order of their first occurrence,
  each with its number of occurrences.
\<close>

definition kept_tokens :: "'r env \<Rightarrow> session \<Rightarrow> string \<Rightarrow> string list" where
  "kept_tokens e self text =
     map fst (filter (\<lambda>(word, pos).
                        (prefix ''NN'' pos \<or> prefix ''JJ'' pos \<or> prefix ''VB'' pos) \<and>
                        word \<notin> stop_words self \<and> 2 < length word \<and> isalpha word)
                (pos_tag e (word_tokenize e (lower text))))"

definition ranks_before :: "string list \<Rightarrow> string \<Rightarrow> string \<Rightarrow> bool" where
  "ranks_before ws a b \<longleftrightarrow>
     count_list ws b < count_list ws a \<or>
     (count_list ws a = count_list ws b \<and>
      length (takeWhile (\<lambda>x. x \<noteq> a) ws) < length (takeWhile (\<lambda>x. x \<noteq> b) ws))"

definition demo_concept_text :: string where
  "demo_concept_text =
     ''The cache is fast. A disk is slow but the disk is big. Cache and disk and cache.''"

text \<open>
  The example of the concept extractor runs with a tagger that gives the conjunction
  \<open>but\<close> the tag \<open>CC\<close>, the adjectives the tag \<open>JJ\<close> and every other word \<open>NN\<close>.
\<close>

definition demo_tag_env :: "nat env" where
  "demo_tag_env =
     demo_env\<lparr>pos_tag :=
       map (\<lambda>w. (w, if w = ''but'' then ''CC''
                     else if w \<in> set [''fast'', ''slow'', ''big''] then ''JJ'' else ''NN''))\<rparr>"

definition first_pos :: "string list \<Rightarrow> string \<Rightarrow> nat" where
  "first_pos ws w = length (takeWhile (\<lambda>x. x \<noteq> w) ws)"

definition counter_inv :: "string list \<Rightarrow> (string \<times> nat) list \<Rightarrow> bool" where
  "counter_inv ws c \<longleftrightarrow>
     distinct (map fst c) \<and> set (map fst c) = set ws \<and>
     (\<forall>(x, n)\<in>set c. n = count_list ws x) \<and>
     sorted_wrt (\<lambda>a b. first_pos ws a < first_pos ws b) (map fst c)"

section \<open>Properties of the normalizer\<close>

lemma isspace_simps: "isspace CHR '' ''" "isspace CHR 0x0A" "isspace CHR 0x0D"
  by (simp_all add: isspace_def)

lemma keep_char_slash: "\<not> keep_char CHR ''/''"
  by (simp add: keep_char_def is_word_char_def isalnum_char_def isalpha_char_def isdecimal_def isspace_def)

lemma set_sub_spaces: "c \<in> set (sub_spaces s) \<Longrightarrow> isspace c \<Longrightarrow> c = CHR '' ''"
  by (induction s rule: sub_spaces.induct) (auto split: if_splits)

lemma set_sub_newlines: "set (sub_newlines s) \<subseteq> set s"
  by (induction s rule: sub_newlines.induct) (auto split: if_splits dest: set_dropWhileD)

lemma set_match_page: "match_page s = Some rest \<Longrightarrow> set rest \<subseteq> set s"
  by (induction s rule: match_page.induct) (auto split: if_splits dest: set_dropWhileD)

lemma set_sub_page: "set (sub_page s) \<subseteq> set s"
proof (induction s rule: sub_page.induct)
  case 1 show ?case by simp
next
  case (2 c cs)
  show ?case
  proof (cases "match_page (c # cs)")
    case None with 2 show ?thesis by auto
  next
    case (Some rest)
    with 2 set_match_page [OF Some] show ?thesis by auto
  qed
qed

lemma set_match_fraction: "match_fraction s = Some rest \<Longrightarrow> set rest \<subseteq> set s"
proof -
  assume "match_fraction s = Some rest"
  then obtain sl d r where d: "dropWhile isdecimal s = sl # d # r" and r: "rest = dropWhile isdecimal r"
    by (auto simp: match_fraction_def split: if_splits list.splits)
  have "set rest \<subseteq> set r" using r by (auto dest: set_dropWhileD)
  also have "\<dots> \<subseteq> set (dropWhile isdecimal s)" using d by auto
  also have "\<dots> \<subseteq> set s" by (auto dest: set_dropWhileD)
  finally show ?thesis .
qed

lemma set_sub_fraction: "set (sub_fraction s) \<subseteq> set s"
proof (induction s rule: sub_fraction.induct)
  case 1 show ?case by simp
next
  case (2 c cs)
  show ?case
  proof (cases "match_fraction (c # cs)")
    case None with 2 show ?thesis by auto
  next
    case (Some rest)
    with 2 set_match_fraction [OF Some] show ?thesis by auto
  qed
qed

lemma set_strip: "set (strip s) \<subseteq> set s"
  by (auto simp: strip_def dest!: set_dropWhileD)

lemma no_edge_whitespace_strip: "no_edge_whitespace (strip s)"
proof -
  let ?a = "dropWhile isspace s" and ?b = "dropWhile isspace (rev (dropWhile isspace s))"
  show ?thesis
  proof (cases "?b = []")
    case True then show ?thesis by (simp add: no_edge_whitespace_def strip_def)
  next
    case False
    then have a: "?a \<noteq> []" by (cases "?a = []") auto
    have l: "\<not> isspace (hd ?b)" using False by (rule hd_dropWhile)
    have "\<exists>ys. rev ?a = ys @ ?b \<and> (\<forall>y\<in>set ys. isspace y)"
      by (metis takeWhile_dropWhile_id set_takeWhileD)
    then obtain ys where ys: "rev ?a = ys @ ?b" by blast
    have "last (rev ?b) = hd ?b" using False by (simp add: last_rev)
    moreover have "hd (rev ?b) = hd ?a"
    proof -
      have "?a = rev ?b @ rev ys" using ys by (metis rev_append rev_rev_ident)
      then show ?thesis using False by (metis hd_append2 rev_is_Nil_conv)
    qed
    moreover have "\<not> isspace (hd ?a)" using a by (rule hd_dropWhile)
    ultimately show ?thesis using l by (simp add: no_edge_whitespace_def strip_def)
  qed
qed

lemma strip_id: "no_edge_whitespace s \<Longrightarrow> strip s = s"
proof (cases "s = []")
  case True then show ?thesis by (simp add: strip_def)
next
  case False
  assume "no_edge_whitespace s"
  with False have h: "\<not> isspace (hd s)" and l: "\<not> isspace (last s)"
    by (auto simp: no_edge_whitespace_def)
  have 1: "dropWhile isspace s = s" using False h by (simp add: dropWhile_eq_self_iff)
  have 2: "dropWhile isspace (rev s) = rev s"
    using False l by (simp add: dropWhile_eq_self_iff hd_rev)
  show ?thesis by (simp add: strip_def 1 2)
qed

lemma length_strip: "length (strip s) \<le> length s"
proof -
  have "length (strip s) \<le> length (dropWhile isspace s)"
    unfolding strip_def by (metis length_dropWhile_le length_rev)
  also have "\<dots> \<le> length s" by (rule length_dropWhile_le)
  finally show ?thesis .
qed

lemma sublist_strip: "sublist (strip s) s"
proof -
  have "suffix (dropWhile isspace s) s" by (rule suffix_dropWhile)
  moreover have "prefix (strip s) (dropWhile isspace s)"
    unfolding strip_def
    by (metis suffix_dropWhile suffix_to_prefix rev_rev_ident)
  ultimately show ?thesis by (meson sublist_altdef')
qed


lemma sub_crlf_id: "CHR 0x0D \<notin> set s \<Longrightarrow> sub_crlf s = s"
  by (induction s rule: sub_crlf.induct) auto

lemma sub_newlines_id: "CHR 0x0A \<notin> set s \<Longrightarrow> sub_newlines s = s"
  by (induction s rule: sub_newlines.induct) auto

lemma sub_unusual_id: "\<forall>c\<in>set s. keep_char c \<Longrightarrow> sub_unusual s = s"
  by (simp add: sub_unusual_def)

lemma match_fraction_slash: "match_fraction s = Some rest \<Longrightarrow> CHR ''/'' \<in> set s"
proof -
  assume "match_fraction s = Some rest"
  then obtain d r where d: "dropWhile isdecimal s = CHR ''/'' # d # r"
    by (auto simp: match_fraction_def split: if_splits list.splits)
  then have "CHR ''/'' \<in> set (dropWhile isdecimal s)" by simp
  then show ?thesis by (rule set_dropWhileD)
qed

lemma sub_fraction_id: "CHR ''/'' \<notin> set s \<Longrightarrow> sub_fraction s = s"
proof (induction s rule: sub_fraction.induct)
  case 1 show ?case by simp
next
  case (2 c cs)
  have "match_fraction (c # cs) = None"
    using 2(3) match_fraction_slash [of "c # cs"] by (cases "match_fraction (c # cs)") auto
  with 2 show ?case by simp
qed

lemma length_sub_spaces: "length (sub_spaces s) \<le> length s"
proof (induction s rule: sub_spaces.induct)
  case 1 show ?case by simp
next
  case (2 c cs)
  have "length (dropWhile isspace cs) \<le> length cs" by (rule length_dropWhile_le)
  with 2 show ?case by (auto intro: le_trans)
qed

lemma length_sub_newlines: "length (sub_newlines s) \<le> length s"
proof (induction s rule: sub_newlines.induct)
  case 1 show ?case by simp
next
  case (2 c cs)
  have "length (dropWhile (\<lambda>d. d = CHR 0x0A) cs) \<le> length cs" by (rule length_dropWhile_le)
  with 2 show ?case by (auto intro: le_trans)
qed

lemma length_sub_unusual: "length (sub_unusual s) \<le> length s"
  by (simp add: sub_unusual_def)

lemma length_sub_page: "length (sub_page s) \<le> length s"
proof (induction s rule: sub_page.induct)
  case 1 show ?case by simp
next
  case (2 c cs)
  show ?case
  proof (cases "match_page (c # cs)")
    case None with 2 show ?thesis by simp
  next
    case (Some rest)
    with 2 match_page_shorter [OF Some] show ?thesis by simp
  qed
qed

lemma length_sub_fraction: "length (sub_fraction s) \<le> length s"
proof (induction s rule: sub_fraction.induct)
  case 1 show ?case by simp
next
  case (2 c cs)
  show ?case
  proof (cases "match_fraction (c # cs)")
    case None with 2 show ?thesis by simp
  next
    case (Some rest)
    with 2 match_fraction_shorter [OF Some] show ?thesis by simp
  qed
qed

lemma sub_page_id_iff: "sub_page s = s \<longleftrightarrow> \<not> has_page_marker s"
proof (induction s rule: sub_page.induct)
  case 1 show ?case by simp
next
  case (2 c cs)
  show ?case
  proof (cases "match_page (c # cs)")
    case None with 2 show ?thesis by simp
  next
    case (Some rest)
    have "length (sub_page rest) < length (c # cs)"
      using length_sub_page [of rest] match_page_shorter [OF Some] by simp
    then have "sub_page rest \<noteq> c # cs" by auto
    with Some show ?thesis by simp
  qed
qed

lemma sub_page_shorter: "has_page_marker s \<Longrightarrow> length (sub_page s) < length s"
proof -
  assume "has_page_marker s"
  then have "sub_page s \<noteq> s" by (simp add: sub_page_id_iff)
  then have "length (sub_page s) \<noteq> length s \<or> sub_page s \<noteq> s" by simp
  have "length (sub_page s) \<noteq> length s"
  proof
    assume e: "length (sub_page s) = length s"
    have "sub_page s = s" using e
    proof (induction s rule: sub_page.induct)
      case 1 show ?case by simp
    next
      case (2 c cs)
      show ?case
      proof (cases "match_page (c # cs)")
        case None
        with 2 show ?thesis by simp
      next
        case (Some rest)
        have "length (sub_page rest) < length (c # cs)"
          using length_sub_page [of rest] match_page_shorter [OF Some] by simp
        with 2(3) Some show ?thesis by simp
      qed
    qed
    with \<open>sub_page s \<noteq> s\<close> show False by simp
  qed
  with length_sub_page [of s] show ?thesis by simp
qed

text \<open>A run of two spaces, seen from the front of the string.\<close>

lemma no_space_run_Nil: "no_space_run []"
  by (simp add: no_space_run_def contains_def)

lemma no_space_run_Cons:
  "no_space_run (c # cs) \<longleftrightarrow> \<not> (c = CHR '' '' \<and> cs \<noteq> [] \<and> hd cs = CHR '' '') \<and> no_space_run cs"
  by (cases cs) (auto simp: no_space_run_def contains_def sublist_Cons_right)

lemma sub_spaces_hd:
  "s \<noteq> [] \<Longrightarrow> \<not> isspace (hd s) \<Longrightarrow> sub_spaces s \<noteq> [] \<and> hd (sub_spaces s) = hd s"
  by (cases s) auto

lemma no_space_run_sub_spaces: "no_space_run (sub_spaces s)"
proof (induction s rule: sub_spaces.induct)
  case 1 show ?case by (simp add: no_space_run_Nil)
next
  case (2 c cs)
  show ?case
  proof (cases "isspace c")
    case False
    then have "c \<noteq> CHR '' ''" by (auto simp: isspace_simps)
    with False 2 show ?thesis by (simp add: no_space_run_Cons)
  next
    case True
    let ?d = "dropWhile isspace cs"
    have "sub_spaces ?d = [] \<or> hd (sub_spaces ?d) \<noteq> CHR '' ''"
    proof (cases "?d = []")
      case True then show ?thesis by (metis sub_spaces.simps(1))
    next
      case False
      then have "\<not> isspace (hd ?d)" by (rule hd_dropWhile)
      with False sub_spaces_hd [of ?d] show ?thesis by (auto simp: isspace_simps)
    qed
    moreover have "no_space_run (sub_spaces ?d)" using 2(1) [OF True] .
    ultimately have "no_space_run (CHR '' '' # sub_spaces ?d)"
      by (auto simp: no_space_run_Cons)
    with True show ?thesis by simp
  qed
qed

lemma sub_spaces_id:
  "\<forall>c\<in>set s. isspace c \<longrightarrow> c = CHR '' '' \<Longrightarrow> no_space_run s \<Longrightarrow> sub_spaces s = s"
proof (induction s rule: sub_spaces.induct)
  case 1 show ?case by simp
next
  case (2 c cs)
  show ?case
  proof (cases "isspace c")
    case False
    with 2 show ?thesis by (simp add: no_space_run_Cons)
  next
    case True
    with 2(3) have c: "c = CHR '' ''" by simp
    with 2(4) have h: "cs = [] \<or> hd cs \<noteq> CHR '' ''" and n: "no_space_run cs"
      by (auto simp: no_space_run_Cons)
    have "cs = [] \<or> \<not> isspace (hd cs)" using h 2(3) by (cases cs) auto
    then have d: "dropWhile isspace cs = cs" by (simp add: dropWhile_eq_self_iff)
    have "sub_spaces (dropWhile isspace cs) = cs"
      using 2(1) [OF True] 2(3) n d by simp
    with True c show ?thesis by simp
  qed
qed

lemma sub_spaces_shorter:
  "\<forall>c\<in>set s. isspace c \<longrightarrow> c = CHR '' '' \<Longrightarrow> \<not> no_space_run s \<Longrightarrow> length (sub_spaces s) < length s"
proof (induction s rule: sub_spaces.induct)
  case 1 then show ?case by (simp add: no_space_run_Nil)
next
  case (2 c cs)
  show ?case
  proof (cases "isspace c")
    case False
    then have "c \<noteq> CHR '' ''" by (auto simp: isspace_simps)
    with False 2 show ?thesis by (simp add: no_space_run_Cons)
  next
    case True
    show ?thesis
    proof (cases "cs \<noteq> [] \<and> hd cs = CHR '' ''")
      case True
      then have "length (dropWhile isspace cs) < length cs"
        by (cases cs) (auto simp: isspace_simps less_Suc_eq_le length_dropWhile_le)
      with \<open>isspace c\<close> length_sub_spaces [of "dropWhile isspace cs"] show ?thesis by simp
    next
      case False
      with 2(4) have n: "\<not> no_space_run cs" by (auto simp: no_space_run_Cons)
      have "cs = [] \<or> \<not> isspace (hd cs)" using False 2(3) by (cases cs) auto
      then have d: "dropWhile isspace cs = cs" by (simp add: dropWhile_eq_self_iff)
      have "length (sub_spaces (dropWhile isspace cs)) < length cs"
        using 2(1) [OF True] 2(3) n d by simp
      with True show ?thesis by simp
    qed
  qed
qed

lemma preprocess_text_spaces:
  assumes "c \<in> set (preprocess_text t)" and "isspace c"
  shows "c = CHR '' ''"
proof -
  have "set (preprocess_text t) \<subseteq> set (sub_spaces (sub_crlf t))"
    unfolding preprocess_text_def sub_unusual_def
    using set_strip set_sub_fraction set_sub_page set_sub_newlines
    by (meson filter_is_subset subset_trans)
  with assms show ?thesis by (auto dest: set_sub_spaces)
qed

lemma preprocess_text_keep:
  assumes "c \<in> set (preprocess_text t)"
  shows "keep_char c"
proof -
  have "set (preprocess_text t) \<subseteq> set (sub_unusual (sub_newlines (sub_spaces (sub_crlf t))))"
    unfolding preprocess_text_def
    using set_strip set_sub_fraction set_sub_page by (meson subset_trans)
  with assms show ?thesis by (auto simp: sub_unusual_def)
qed

lemma preprocess_text_no_edge: "no_edge_whitespace (preprocess_text t)"
  unfolding preprocess_text_def by (rule no_edge_whitespace_strip)

lemma no_space_run_sublist: "sublist s s' \<Longrightarrow> no_space_run s' \<Longrightarrow> no_space_run s"
  unfolding no_space_run_def contains_def by (meson sublist_order.order_trans)

lemma preprocess_text_clean:
  assumes k: "\<forall>c\<in>set (sub_spaces (sub_crlf t)). keep_char c"
    and m: "\<not> has_page_marker (sub_spaces (sub_crlf t))"
  shows "preprocess_text t = strip (sub_spaces (sub_crlf t))"
proof -
  let ?c = "sub_spaces (sub_crlf t)"
  have "CHR 0x0A \<notin> set ?c" using set_sub_spaces [of "CHR 0x0A" "sub_crlf t"] by (auto simp: isspace_simps)
  then have 1: "sub_newlines ?c = ?c" by (rule sub_newlines_id)
  have 2: "sub_unusual ?c = ?c" using k by (rule sub_unusual_id)
  have 3: "sub_page ?c = ?c" using m by (simp add: sub_page_id_iff)
  have "CHR ''/'' \<notin> set ?c" using k keep_char_slash by auto
  then have 4: "sub_fraction ?c = ?c" by (rule sub_fraction_id)
  show ?thesis by (simp add: preprocess_text_def 1 2 3 4)
qed

text \<open>
  Claim C1, as amended. For every input, the output of \<open>preprocess_text\<close> has no leading
  and no trailing whitespace, holds no newline, and its only whitespace character is
  the plain space. Runs of spaces are excluded only when the later steps delete
  nothing: when the text after the whitespace steps holds only characters of the kept
  class and no page marker, the output has no run of two spaces.
\<close>

theorem preprocess_text_normal_form:
  "no_edge_whitespace (preprocess_text t) \<and>
   CHR 0x0A \<notin> set (preprocess_text t) \<and>
   (\<forall>c\<in>set (preprocess_text t). isspace c \<longrightarrow> c = CHR '' '') \<and>
   (list_all keep_char (sub_spaces (sub_crlf t)) \<and> \<not> has_page_marker (sub_spaces (sub_crlf t))
      \<longrightarrow> no_space_run (preprocess_text t))"
proof (intro conjI impI)
  show "no_edge_whitespace (preprocess_text t)" by (rule preprocess_text_no_edge)
  show "CHR 0x0A \<notin> set (preprocess_text t)"
    using preprocess_text_spaces [of "CHR 0x0A" t] by (auto simp: isspace_simps)
  show "\<forall>c\<in>set (preprocess_text t). isspace c \<longrightarrow> c = CHR '' ''"
    by (auto dest: preprocess_text_spaces)
next
  assume a: "list_all keep_char (sub_spaces (sub_crlf t)) \<and> \<not> has_page_marker (sub_spaces (sub_crlf t))"
  then have "preprocess_text t = strip (sub_spaces (sub_crlf t))"
    by (simp add: preprocess_text_clean list_all_iff)
  then show "no_space_run (preprocess_text t)"
    using no_space_run_sublist [OF sublist_strip no_space_run_sub_spaces] by simp
qed

theorem preprocess_text_normal_form_witness:
  "list_all keep_char (sub_spaces (sub_crlf ''  Hello,   world! '')) \<and>
   \<not> has_page_marker (sub_spaces (sub_crlf ''  Hello,   world! '')) \<and>
   preprocess_text ''  Hello,   world! '' = ''Hello, world!'' \<and>
   no_edge_whitespace (preprocess_text ''  Hello,   world! '') \<and>
   no_space_run (preprocess_text ''  Hello,   world! '')"
proof -
  have h: "list_all keep_char (sub_spaces (sub_crlf ''  Hello,   world! '')) \<and>
     \<not> has_page_marker (sub_spaces (sub_crlf ''  Hello,   world! ''))"
    by code_simp
  have e: "preprocess_text ''  Hello,   world! '' = ''Hello, world!''" by code_simp
  from preprocess_text_normal_form [of "''  Hello,   world! ''"] h e show ?thesis by blast
qed

text \<open>
  The claim as stated fails: the hash sign between two spaces is deleted after the
  whitespace was collapsed, and the two spaces meet.
\<close>

theorem preprocess_text_space_run_counterexample:
  "\<not> (no_edge_whitespace (preprocess_text ''a # b'') \<and>
      no_space_run (preprocess_text ''a # b'') \<and>
      no_newline_run (preprocess_text ''a # b''))"
  by code_simp

lemma match_page_append: "match_page s \<noteq> None \<Longrightarrow> match_page (s @ r) \<noteq> None"
  by (induction s rule: match_page.induct) (auto split: if_splits)

lemma has_page_marker_append_left: "has_page_marker s \<Longrightarrow> has_page_marker (p @ s)"
  by (induction p) auto

lemma has_page_marker_append_right: "has_page_marker s \<Longrightarrow> has_page_marker (s @ r)"
proof (induction s)
  case Nil then show ?case by simp
next
  case (Cons c cs)
  show ?case
  proof (cases "match_page (c # cs) = None")
    case True
    with Cons have "has_page_marker (cs @ r)" by simp
    then show ?thesis by simp
  next
    case False
    then have "match_page ((c # cs) @ r) \<noteq> None" by (rule match_page_append)
    then show ?thesis by simp
  qed
qed

lemma has_page_marker_sublist: "sublist u s \<Longrightarrow> has_page_marker u \<Longrightarrow> has_page_marker s"
proof -
  assume "sublist u s" and m: "has_page_marker u"
  then obtain p r where s: "s = p @ u @ r" by (auto simp: sublist_def)
  from m have "has_page_marker (u @ r)" by (rule has_page_marker_append_right)
  then have "has_page_marker (p @ u @ r)" by (rule has_page_marker_append_left)
  with s show ?thesis by simp
qed

text \<open>
  Claim C2, as amended. Normalizing a normalized text returns it unchanged exactly when
  it holds no run of two spaces and no page marker (\<open>Page\<close>, a space and digits, in any
  letter case); both can arise in the first pass from a deletion. In particular it is
  returned unchanged whenever the text after the whitespace steps of the first pass
  holds only characters of the kept class and no page marker, so that the deletion
  steps delete nothing.
\<close>

theorem preprocess_text_idempotent_iff:
  "(preprocess_text (preprocess_text t) = preprocess_text t \<longleftrightarrow>
      no_space_run (preprocess_text t) \<and> \<not> has_page_marker (preprocess_text t)) \<and>
   (list_all keep_char (sub_spaces (sub_crlf t)) \<and> \<not> has_page_marker (sub_spaces (sub_crlf t))
      \<longrightarrow> preprocess_text (preprocess_text t) = preprocess_text t)"
proof -
  let ?u = "preprocess_text t"
  have sp: "\<forall>c\<in>set ?u. isspace c \<longrightarrow> c = CHR '' ''" by (auto dest: preprocess_text_spaces)
  have kp: "\<forall>c\<in>set ?u. keep_char c" by (auto dest: preprocess_text_keep)
  have "CHR 0x0D \<notin> set ?u" using sp by (auto simp: isspace_simps)
  then have 0: "sub_crlf ?u = ?u" by (rule sub_crlf_id)
  have "CHR 0x0A \<notin> set ?u" using sp by (auto simp: isspace_simps)
  then have 1: "sub_newlines ?u = ?u" by (rule sub_newlines_id)
  have 2: "sub_unusual ?u = ?u" using kp by (rule sub_unusual_id)
  have "CHR ''/'' \<notin> set ?u" using kp keep_char_slash by auto
  then have 4: "sub_fraction ?u = ?u" by (rule sub_fraction_id)
  have 5: "strip ?u = ?u" using preprocess_text_no_edge by (rule strip_id)
  have fixed: "preprocess_text ?u = ?u \<longleftrightarrow> no_space_run ?u \<and> \<not> has_page_marker ?u"
  proof (cases "no_space_run ?u")
    case True
    with sp have s: "sub_spaces ?u = ?u" by (rule sub_spaces_id)
    show ?thesis
    proof (cases "has_page_marker ?u")
      case False
      then have "sub_page ?u = ?u" by (simp add: sub_page_id_iff)
      then have "preprocess_text ?u = ?u"
        by (simp add: preprocess_text_def [of ?u] 0 s 1 2 4 5)
      with True False show ?thesis by simp
    next
      case m: True
      have "length (preprocess_text ?u) = length (strip (sub_fraction (sub_page ?u)))"
        by (simp add: preprocess_text_def [of ?u] 0 s 1 2)
      also have "\<dots> \<le> length (sub_page ?u)"
        using length_strip length_sub_fraction by (meson le_trans)
      also have "\<dots> < length ?u" using m by (rule sub_page_shorter)
      finally have "preprocess_text ?u \<noteq> ?u" by auto
      with m show ?thesis by simp
    qed
  next
    case False
    have "length (preprocess_text ?u) \<le> length (sub_spaces ?u)"
      unfolding preprocess_text_def [of ?u] 0
      using length_strip length_sub_fraction length_sub_page length_sub_unusual length_sub_newlines
      by (meson le_trans)
    also have "\<dots> < length ?u" using sp False by (rule sub_spaces_shorter)
    finally have "preprocess_text ?u \<noteq> ?u" by auto
    with False show ?thesis by simp
  qed
  have clean: "list_all keep_char (sub_spaces (sub_crlf t)) \<and> \<not> has_page_marker (sub_spaces (sub_crlf t))
      \<longrightarrow> preprocess_text ?u = ?u"
  proof
    let ?c = "sub_spaces (sub_crlf t)"
    assume a: "list_all keep_char ?c \<and> \<not> has_page_marker ?c"
    then have e: "?u = strip ?c" by (simp add: preprocess_text_clean list_all_iff)
    have "no_space_run (strip ?c)"
      using no_space_run_sublist [OF sublist_strip no_space_run_sub_spaces] .
    moreover have "\<not> has_page_marker (strip ?c)"
      using a has_page_marker_sublist [OF sublist_strip] by blast
    ultimately show "preprocess_text ?u = ?u" using fixed e by simp
  qed
  from fixed clean show ?thesis by blast
qed

theorem preprocess_text_idempotent_iff_witness:
  "list_all keep_char (sub_spaces (sub_crlf ''  Hello,   world! '')) \<and>
   \<not> has_page_marker (sub_spaces (sub_crlf ''  Hello,   world! '')) \<and>
   no_space_run (preprocess_text ''  Hello,   world! '') \<and>
   \<not> has_page_marker (preprocess_text ''  Hello,   world! '') \<and>
   preprocess_text ''  Hello,   world! '' = ''Hello, world!'' \<and>
   preprocess_text (preprocess_text ''  Hello,   world! '') = ''Hello, world!''"
proof -
  have h: "list_all keep_char (sub_spaces (sub_crlf ''  Hello,   world! '')) \<and>
     \<not> has_page_marker (sub_spaces (sub_crlf ''  Hello,   world! ''))"
    by code_simp
  have n: "no_space_run (preprocess_text ''  Hello,   world! '') \<and>
     \<not> has_page_marker (preprocess_text ''  Hello,   world! '')"
    by code_simp
  have e: "preprocess_text ''  Hello,   world! '' = ''Hello, world!''" by code_simp
  from preprocess_text_idempotent_iff [of "''  Hello,   world! ''"] h
  have "preprocess_text (preprocess_text ''  Hello,   world! '') = preprocess_text ''  Hello,   world! ''"
    by blast
  with h n e show ?thesis by simp
qed

text \<open>The second pass collapses the two spaces the first pass left.\<close>

theorem preprocess_text_not_idempotent_counterexample:
  "preprocess_text (preprocess_text ''a # b'') \<noteq> preprocess_text ''a # b''"
  by code_simp

section \<open>Properties of the generators and of the deduplicator\<close>

lemma why_loop_eq:
  "why_loop sents qs =
     qs @ map (\<lambda>s. \<lparr>question = why_question, answer = strip s\<rparr>)
            (filter (\<lambda>s. any_in reason_indicators (lower s)) sents)"
  by (induction sents arbitrary: qs) (simp_all add: Let_def)



lemma case_filter_find:
  "(case filter P xs of r # _ \<Rightarrow> f r | [] \<Rightarrow> d) = (case find P xs of Some r \<Rightarrow> f r | None \<Rightarrow> d)"
  by (induction xs) auto

lemma length_generate_comparison_questions:
  "length (generate_comparison_questions e text concepts) = nat (min (int (length concepts) - 1) 3)"
  by (simp add: generate_comparison_questions_def Let_def)

lemma nth_generate_comparison_questions:
  assumes "i < length (generate_comparison_questions e text concepts)"
  shows "generate_comparison_questions e text concepts ! i =
     \<lparr>question = ''What is the difference between '' @ concepts ! i @ '' and '' @ concepts ! (i + 1) @ ''?'',
      answer = (case find (mentions_both (concepts ! i) (concepts ! (i + 1))) (comparison_pool e text) of
                  Some r \<Rightarrow> strip r
                | None \<Rightarrow> ''Both '' @ concepts ! i @ '' and '' @ concepts ! (i + 1) @
                            '' are important concepts in this assignment that serve different roles in the overall context.'')\<rparr>"
proof -
  from assms have i: "i < nat (min (int (length concepts) - 1) 3)"
    by (simp add: length_generate_comparison_questions)
  have "generate_comparison_questions e text concepts ! i =
      comparison_pair (comparison_pool e text) concepts i"
    using i by (simp add: generate_comparison_questions_def Let_def comparison_pool_def)
  then show ?thesis
    unfolding comparison_pair_def Let_def mentions_both_def [abs_def] fallback_answer_def
    by (simp add: case_filter_find)
qed


text \<open>
  Claim C7. The comparison generator emits one pair for each index of
  \<open>range(min(len(concepts)-1, 3))\<close>: none when there are fewer than two concepts, at
  least one and at most three otherwise. The pair at index \<open>i\<close> asks for the difference
  between the concepts \<open>i\<close> and \<open>i+1\<close>; its answer is the first sentence of the
  comparison pool that mentions both, trimmed, and when there is none the synthesized
  sentence that names both: \<open>Both\<close>, the first concept, \<open>and\<close>, the second concept, and
  the fixed words \<open>are important concepts in this assignment that serve different roles
  in the overall context.\<close>
\<close>

theorem generate_comparison_questions_spec:
  "(let out = generate_comparison_questions e text concepts in
      length out = nat (min (int (length concepts) - 1) 3) \<and>
      length out \<le> 3 \<and>
      (length concepts < 2 \<longrightarrow> out = []) \<and>
      (2 \<le> length concepts \<longrightarrow> out \<noteq> []) \<and>
      (\<forall>i<length out. i + 1 < length concepts \<and>
         out ! i =
           \<lparr>question = ''What is the difference between '' @ concepts ! i @ '' and '' @
                         concepts ! (i + 1) @ ''?'',
            answer = (case find (mentions_both (concepts ! i) (concepts ! (i + 1)))
                             (comparison_pool e text) of
                        Some r \<Rightarrow> strip r
                      | None \<Rightarrow>
                          ''Both '' @ concepts ! i @ '' and '' @ concepts ! (i + 1) @
                          '' are important concepts in this assignment that serve different roles in the overall context.'')\<rparr>))"
proof -
  let ?out = "generate_comparison_questions e text concepts"
  have len: "length ?out = nat (min (int (length concepts) - 1) 3)"
    by (rule length_generate_comparison_questions)
  have 1: "length ?out \<le> 3" using len by simp
  have 2: "length concepts < 2 \<longrightarrow> ?out = []" using len by auto
  have 3: "2 \<le> length concepts \<longrightarrow> ?out \<noteq> []" using len by auto
  have 4: "\<forall>i<length ?out. i + 1 < length concepts" using len by auto
  show ?thesis
    unfolding Let_def using len 1 2 3 4 nth_generate_comparison_questions by blast
qed

theorem generate_comparison_questions_spec_witness:
  "2 \<le> length [''cache'', ''disk'', ''latency''] \<and>
   generate_comparison_questions demo_env demo_comparison_text [''cache'', ''disk'', ''latency''] =
     [\<lparr>question = ''What is the difference between cache and disk?'',
       answer = ''Cache is fast but disk is slow.''\<rparr>,
      \<lparr>question = ''What is the difference between disk and latency?'',
       answer = ''Both disk and latency are important concepts in this assignment that serve different roles in the overall context.''\<rparr>] \<and>
   generate_comparison_questions demo_env demo_comparison_text [''cache'', ''disk'', ''latency''] \<noteq> []"
proof -
  have h: "2 \<le> length [''cache'', ''disk'', ''latency'']" by simp
  have e: "generate_comparison_questions demo_env demo_comparison_text [''cache'', ''disk'', ''latency''] =
     [\<lparr>question = ''What is the difference between cache and disk?'',
       answer = ''Cache is fast but disk is slow.''\<rparr>,
      \<lparr>question = ''What is the difference between disk and latency?'',
       answer = ''Both disk and latency are important concepts in this assignment that serve different roles in the overall context.''\<rparr>]"
    by code_simp
  from generate_comparison_questions_spec [of demo_env demo_comparison_text "[''cache'', ''disk'', ''latency'']"] h
  have "generate_comparison_questions demo_env demo_comparison_text [''cache'', ''disk'', ''latency''] \<noteq> []"
    unfolding Let_def by blast
  with h e show ?thesis by blast
qed

lemma dedup_loop_append: "dedup_loop ps unique seen = unique @ dedup_loop ps [] seen"
proof (induction ps arbitrary: unique seen)
  case Nil show ?case by simp
next
  case (Cons p ps)
  show ?case
    using Cons [of "unique @ [p]"] Cons [of "[p]"] Cons [of unique seen]
    by (simp add: Let_def)
qed

lemma map_nth_filter_Suc:
  "map (nth (p # ps)) (filter Q (map Suc l)) = map (nth ps) (filter (\<lambda>i. Q (Suc i)) l)"
  by (simp add: filter_map o_def)

lemma dedup_loop_positions:
  "dedup_loop ps [] seen =
     map (nth ps)
       (filter (\<lambda>i. question_key (ps ! i) \<notin> seen \<and>
                     (\<forall>j<i. question_key (ps ! j) \<noteq> question_key (ps ! i)))
          [0 ..< length ps])"
proof (induction ps arbitrary: seen)
  case Nil show ?case by simp
next
  case (Cons p ps)
  let ?Q = "\<lambda>i. question_key ((p # ps) ! i) \<notin> seen \<and>
                 (\<forall>j<i. question_key ((p # ps) ! j) \<noteq> question_key ((p # ps) ! i))"
  have upt: "[0 ..< length (p # ps)] = 0 # map Suc [0 ..< length ps]"
    by (simp only: length_Cons upt_conv_Cons [OF zero_less_Suc] map_Suc_upt)
  have Q0: "?Q 0 \<longleftrightarrow> question_key p \<notin> seen" by simp
  have QS: "?Q (Suc i) \<longleftrightarrow>
      question_key (ps ! i) \<notin> insert (question_key p) seen \<and>
      (\<forall>j<i. question_key (ps ! j) \<noteq> question_key (ps ! i))" for i
    by (auto simp: All_less_Suc2)
  show ?case
  proof (cases "question_key p \<in> seen")
    case True
    then have ins: "insert (question_key p) seen = seen" by auto
    have "dedup_loop (p # ps) [] seen = dedup_loop ps [] seen" using True by simp
    also have "\<dots> = map (nth ps) (filter (\<lambda>i. ?Q (Suc i)) [0 ..< length ps])"
      unfolding QS ins by (rule Cons)
    also have "\<dots> = map (nth (p # ps)) (filter ?Q (map Suc [0 ..< length ps]))"
      by (rule map_nth_filter_Suc [symmetric])
    also have "\<dots> = map (nth (p # ps)) (filter ?Q [0 ..< length (p # ps)])"
      unfolding upt using True Q0 by simp
    finally show ?thesis .
  next
    case False
    have "dedup_loop (p # ps) [] seen = p # dedup_loop ps [] (insert (question_key p) seen)"
      using False dedup_loop_append [of ps "[p]"] by simp
    also have "dedup_loop ps [] (insert (question_key p) seen) =
        map (nth ps) (filter (\<lambda>i. ?Q (Suc i)) [0 ..< length ps])"
      unfolding QS by (rule Cons)
    also have "\<dots> = map (nth (p # ps)) (filter ?Q (map Suc [0 ..< length ps]))"
      by (rule map_nth_filter_Suc [symmetric])
    also have "p # \<dots> = map (nth (p # ps)) (filter ?Q [0 ..< length (p # ps)])"
      unfolding upt using False Q0 by simp
    finally show ?thesis .
  qed
qed

lemma dedup_loop_distinct:
  "distinct (map question_key (dedup_loop ps [] seen)) \<and>
   question_key ` set (dedup_loop ps [] seen) \<inter> seen = {}"
proof (induction ps arbitrary: seen)
  case Nil show ?case by simp
next
  case (Cons p ps)
  show ?case
  proof (cases "question_key p \<in> seen")
    case True
    with Cons [of seen] show ?thesis by simp
  next
    case False
    have "dedup_loop (p # ps) [] seen = p # dedup_loop ps [] (insert (question_key p) seen)"
      using False dedup_loop_append [of ps "[p]"] by simp
    with False Cons [of "insert (question_key p) seen"] show ?thesis by auto
  qed
qed

text \<open>
  Claim C5. No two pairs of the deduplicator's output have the same question key (the
  question lowercased and trimmed), and the output is the input restricted to the
  positions whose key occurs at no earlier position, in the input order, each pair as
  it was (the answers play no part).
\<close>

theorem remove_duplicate_questions_spec:
  "distinct (map question_key (remove_duplicate_questions ps)) \<and>
   remove_duplicate_questions ps = map (nth ps) (first_question_positions ps)"
  unfolding remove_duplicate_questions_def first_question_positions_def
  using dedup_loop_distinct [of ps "{}"] dedup_loop_positions [of ps "{}"] by simp

theorem remove_duplicate_questions_spec_witness:
  "first_question_positions demo_pairs = [0, 2] \<and>
   remove_duplicate_questions demo_pairs =
     [\<lparr>question = ''Why?'', answer = ''first''\<rparr>, \<lparr>question = ''What?'', answer = ''third''\<rparr>]"
proof -
  have p: "first_question_positions demo_pairs = [0, 2]"
    by code_simp
  from remove_duplicate_questions_spec [of demo_pairs] p
  have "remove_duplicate_questions demo_pairs = map (nth demo_pairs) [0, 2]" by simp
  with p show ?thesis by (simp add: demo_pairs_def)
qed

section \<open>The definition generator\<close>

lemma isspace_lower_char: "isspace (lower_char c) = isspace c"
  by (auto simp: isspace_def lower_char_def Let_def)

lemma lower_strip: "lower (strip s) = strip (lower s)"
proof -
  have c: "isspace \<circ> lower_char = isspace" by (auto simp: isspace_lower_char)
  show ?thesis
    by (simp add: lower_def strip_def rev_map dropWhile_map c)
qed

lemma sublist_dropWhile:
  "sublist x s \<Longrightarrow> x \<noteq> [] \<Longrightarrow> \<not> P (hd x) \<Longrightarrow> sublist x (dropWhile P s)"
proof (induction s)
  case Nil then show ?case by simp
next
  case (Cons a s)
  show ?case
  proof (cases "P a")
    case False then show ?thesis using Cons.prems by simp
  next
    case True
    have "\<not> prefix x (a # s)"
    proof
      assume "prefix x (a # s)"
      with Cons.prems(2) have "hd x = a" by (cases x) auto
      with True Cons.prems(3) show False by simp
    qed
    with Cons.prems(1) have "sublist x s" by (simp add: sublist_Cons_right)
    with Cons True show ?thesis by simp
  qed
qed

lemma sublist_strip_inner:
  assumes "sublist x s" and "x \<noteq> []" and "\<not> isspace (hd x)" and "\<not> isspace (last x)"
  shows "sublist x (strip s)"
proof -
  have 1: "sublist x (dropWhile isspace s)" using assms(1,2,3) by (rule sublist_dropWhile)
  then have "sublist (rev x) (rev (dropWhile isspace s))" by (simp add: sublist_rev)
  moreover have "rev x \<noteq> []" using assms(2) by simp
  moreover have "\<not> isspace (hd (rev x))" using assms(2,4) by (simp add: hd_rev)
  ultimately have "sublist (rev x) (dropWhile isspace (rev (dropWhile isspace s)))"
    by (rule sublist_dropWhile)
  then have "sublist (rev (rev x)) (rev (dropWhile isspace (rev (dropWhile isspace s))))"
    by (simp only: sublist_rev)
  then show ?thesis by (simp add: strip_def)
qed

lemma contains_strip:
  "contains s x \<Longrightarrow> no_edge_whitespace x \<Longrightarrow> contains (strip s) x"
  unfolding contains_def no_edge_whitespace_def
  using sublist_strip_inner by (cases "x = []") auto

lemma definition_indicators_no_edge: "list_all no_edge_whitespace definition_indicators"
  by code_simp

lemma any_in_definition_strip:
  assumes "any_in definition_indicators s"
  shows "any_in definition_indicators (strip s)"
proof -
  from assms obtain ind where i: "ind \<in> set definition_indicators" and c: "contains s ind"
    by (auto simp: any_in_def list_ex_iff)
  from i definition_indicators_no_edge have "no_edge_whitespace ind"
    by (auto simp: list_all_iff)
  with c have "contains (strip s) ind" by (rule contains_strip)
  with i show ?thesis by (auto simp: any_in_def list_ex_iff)
qed

lemma no_edge_whitespace_lower: "no_edge_whitespace c \<Longrightarrow> no_edge_whitespace (lower c)"
  by (cases "c = []") (auto simp: no_edge_whitespace_def lower_def hd_map last_map isspace_lower_char)

lemma definition_sentences_eq:
  "definition_sentences (lower c) sents = map strip (filter (definition_candidate c) sents)"
  by (induction sents) (simp_all add: Let_def definition_candidate_def)

lemma max_len_props:
  "max_len b xs \<in> set (b # xs) \<and> (\<forall>x\<in>set (b # xs). length x \<le> length (max_len b xs))"
proof (induction xs arbitrary: b)
  case Nil show ?case by simp
next
  case (Cons x xs)
  show ?case
    using Cons [of "if length b < length x then x else b"]
    by (auto split: if_splits intro: le_trans less_imp_le)
qed


lemma definition_loop_set:
  "p \<in> set (definition_loop sents cs) \<longleftrightarrow>
     (\<exists>c\<in>set cs. \<exists>d ds. definition_sentences (lower c) sents = d # ds \<and>
        p = \<lparr>question = ''What is '' @ c @ ''?'', answer = max_len d ds\<rparr>)"
proof (induction cs)
  case Nil show ?case by simp
next
  case (Cons c cs)
  show ?case
  proof (cases "definition_sentences (lower c) sents")
    case Nil
    with Cons show ?thesis by (simp add: Let_def)
  next
    case (Cons d ds)
    with Cons.IH show ?thesis by (auto simp: Let_def)
  qed
qed

lemma length_definition_loop: "length (definition_loop sents cs) \<le> length cs"
  by (induction cs) (auto simp: Let_def split: list.splits)

lemma definition_pair_props:
  assumes ds: "definition_sentences (lower c) sents = d # ds"
  shows "\<exists>s\<in>set sents. max_len d ds = strip s \<and> definition_candidate c s \<and>
           any_in definition_indicators (lower (max_len d ds)) \<and>
           (no_edge_whitespace c \<longrightarrow> contains (lower (max_len d ds)) (lower c)) \<and>
           (\<forall>s'\<in>set sents. definition_candidate c s' \<longrightarrow> length (strip s') \<le> length (max_len d ds))"
proof -
  have eq: "d # ds = map strip (filter (definition_candidate c) sents)"
    using ds by (simp add: definition_sentences_eq)
  have "max_len d ds \<in> set (d # ds)" using max_len_props by blast
  then obtain s where s: "s \<in> set sents" "definition_candidate c s" "max_len d ds = strip s"
    unfolding eq by auto
  have ind: "any_in definition_indicators (lower (strip s))"
    using s(2) any_in_definition_strip [of "lower s"]
    by (simp add: definition_candidate_def lower_strip)
  have con: "no_edge_whitespace c \<longrightarrow> contains (lower (strip s)) (lower c)"
    using s(2) contains_strip [of "lower s" "lower c"] no_edge_whitespace_lower [of c]
    by (auto simp: definition_candidate_def lower_strip)
  have mx: "\<forall>s'\<in>set sents. definition_candidate c s' \<longrightarrow> length (strip s') \<le> length (max_len d ds)"
  proof (intro ballI impI)
    fix s' assume "s' \<in> set sents" "definition_candidate c s'"
    then have "strip s' \<in> set (d # ds)" unfolding eq by auto
    with max_len_props [of d ds] show "length (strip s') \<le> length (max_len d ds)" by blast
  qed
  from s ind con mx show ?thesis by auto
qed

text \<open>
  Claim C6. Every pair of the definition generator asks \<open>What is c?\<close> for a concept
  \<open>c\<close> of the list, and its answer is a sentence of the text, trimmed, that is a
  candidate definition of \<open>c\<close>; the answer itself holds an indicator, and holds the
  concept when the concept has no whitespace at its ends; no candidate of \<open>c\<close> is
  longer, trimmed, than the answer. A concept has a pair exactly when the text has a
  candidate for it, and no concept has more than one pair.
\<close>

theorem generate_definition_questions_spec:
  "(\<forall>p\<in>set (generate_definition_questions e concepts text).
      \<exists>c\<in>set concepts. \<exists>s\<in>set (sent_tokenize e text).
        question p = ''What is '' @ c @ ''?'' \<and> answer p = strip s \<and>
        definition_candidate c s \<and>
        any_in definition_indicators (lower (answer p)) \<and>
        (no_edge_whitespace c \<longrightarrow> contains (lower (answer p)) (lower c)) \<and>
        (\<forall>s'\<in>set (sent_tokenize e text).
           definition_candidate c s' \<longrightarrow> length (strip s') \<le> length (answer p))) \<and>
   (\<forall>c\<in>set concepts.
      (\<exists>p\<in>set (generate_definition_questions e concepts text). question p = ''What is '' @ c @ ''?'') \<longleftrightarrow>
      (\<exists>s\<in>set (sent_tokenize e text). definition_candidate c s)) \<and>
   length (generate_definition_questions e concepts text) \<le> length concepts"
proof (intro conjI ballI)
  fix p assume "p \<in> set (generate_definition_questions e concepts text)"
  then obtain c d ds where c: "c \<in> set concepts"
    and ds: "definition_sentences (lower c) (sent_tokenize e text) = d # ds"
    and p: "p = \<lparr>question = ''What is '' @ c @ ''?'', answer = max_len d ds\<rparr>"
    unfolding generate_definition_questions_def definition_loop_set by blast
  from definition_pair_props [OF ds] obtain s where s: "s \<in> set (sent_tokenize e text)"
    and props: "max_len d ds = strip s \<and> definition_candidate c s \<and>
           any_in definition_indicators (lower (max_len d ds)) \<and>
           (no_edge_whitespace c \<longrightarrow> contains (lower (max_len d ds)) (lower c)) \<and>
           (\<forall>s'\<in>set (sent_tokenize e text).
              definition_candidate c s' \<longrightarrow> length (strip s') \<le> length (max_len d ds))"
    by blast
  have q: "question p = ''What is '' @ c @ ''?''" and a: "answer p = max_len d ds"
    using p by simp_all
  have "question p = ''What is '' @ c @ ''?'' \<and> answer p = strip s \<and>
        definition_candidate c s \<and>
        any_in definition_indicators (lower (answer p)) \<and>
        (no_edge_whitespace c \<longrightarrow> contains (lower (answer p)) (lower c)) \<and>
        (\<forall>s'\<in>set (sent_tokenize e text).
           definition_candidate c s' \<longrightarrow> length (strip s') \<le> length (answer p))"
    unfolding a using q props by blast
  with c s
  show "\<exists>c\<in>set concepts. \<exists>s\<in>set (sent_tokenize e text).
        question p = ''What is '' @ c @ ''?'' \<and> answer p = strip s \<and>
        definition_candidate c s \<and>
        any_in definition_indicators (lower (answer p)) \<and>
        (no_edge_whitespace c \<longrightarrow> contains (lower (answer p)) (lower c)) \<and>
        (\<forall>s'\<in>set (sent_tokenize e text).
           definition_candidate c s' \<longrightarrow> length (strip s') \<le> length (answer p))"
    by blast
next
  fix c assume c: "c \<in> set concepts"
  let ?sents = "sent_tokenize e text"
  show "(\<exists>p\<in>set (generate_definition_questions e concepts text). question p = ''What is '' @ c @ ''?'') \<longleftrightarrow>
      (\<exists>s\<in>set ?sents. definition_candidate c s)"
  proof
    assume "\<exists>p\<in>set (generate_definition_questions e concepts text). question p = ''What is '' @ c @ ''?''"
    then obtain p where "p \<in> set (definition_loop ?sents concepts)"
      and qp: "question p = ''What is '' @ c @ ''?''"
      unfolding generate_definition_questions_def by blast
    then obtain c' d ds where ds: "definition_sentences (lower c') ?sents = d # ds"
      and "p = \<lparr>question = ''What is '' @ c' @ ''?'', answer = max_len d ds\<rparr>"
      unfolding definition_loop_set by blast
    with qp have q: "''What is '' @ c' @ ''?'' = ''What is '' @ c @ ''?''" by simp
    from q have "c' = c" by simp
    with definition_pair_props [OF ds] show "\<exists>s\<in>set ?sents. definition_candidate c s" by blast
  next
    assume "\<exists>s\<in>set ?sents. definition_candidate c s"
    then have "filter (definition_candidate c) ?sents \<noteq> []" by (auto simp: filter_empty_conv)
    then obtain d ds where "definition_sentences (lower c) ?sents = d # ds"
      unfolding definition_sentences_eq by (cases "filter (definition_candidate c) ?sents") auto
    with c have "\<lparr>question = ''What is '' @ c @ ''?'', answer = max_len d ds\<rparr>
        \<in> set (definition_loop ?sents concepts)"
      unfolding definition_loop_set by blast
    then show "\<exists>p\<in>set (generate_definition_questions e concepts text). question p = ''What is '' @ c @ ''?''"
      unfolding generate_definition_questions_def by (rule bexI [rotated]) simp
  qed
next
  show "length (generate_definition_questions e concepts text) \<le> length concepts"
    unfolding generate_definition_questions_def by (rule length_definition_loop)
qed

theorem generate_definition_questions_spec_witness:
  "generate_definition_questions demo_env [''cache'', ''disk'', ''speed''] demo_definition_text =
     [\<lparr>question = ''What is cache?'',
       answer = ''The cache is a layer that is defined as fast storage.''\<rparr>,
      \<lparr>question = ''What is disk?'', answer = ''Disk latency matters.''\<rparr>] \<and>
   \<not> list_ex (definition_candidate ''speed'') (sent_tokenize demo_env demo_definition_text) \<and>
   \<not> list_ex (\<lambda>p. question p = ''What is speed?'')
       (generate_definition_questions demo_env [''cache'', ''disk'', ''speed''] demo_definition_text)"
proof -
  have o: "generate_definition_questions demo_env [''cache'', ''disk'', ''speed''] demo_definition_text =
     [\<lparr>question = ''What is cache?'',
       answer = ''The cache is a layer that is defined as fast storage.''\<rparr>,
      \<lparr>question = ''What is disk?'', answer = ''Disk latency matters.''\<rparr>]"
    by code_simp
  have n: "\<not> list_ex (definition_candidate ''speed'') (sent_tokenize demo_env demo_definition_text)"
    by code_simp
  have m: "''speed'' \<in> set [''cache'', ''disk'', ''speed'']" by simp
  from generate_definition_questions_spec [of demo_env "[''cache'', ''disk'', ''speed'']" demo_definition_text] m n
  have "\<not> (\<exists>p\<in>set (generate_definition_questions demo_env [''cache'', ''disk'', ''speed''] demo_definition_text).
          question p = ''What is '' @ ''speed'' @ ''?'')"
    unfolding list_ex_iff by blast
  then have "\<not> list_ex (\<lambda>p. question p = ''What is speed?'')
       (generate_definition_questions demo_env [''cache'', ''disk'', ''speed''] demo_definition_text)"
    by (simp add: list_ex_iff)
  with o n show ?thesis by blast
qed

section \<open>The pipeline\<close>

lemma strip_all_space: "list_all isspace s \<Longrightarrow> strip s = []"
proof -
  assume "list_all isspace s"
  then have d: "dropWhile isspace s = []" by (simp add: list_all_iff)
  show ?thesis unfolding strip_def d by simp
qed

lemma list_all_isspace_lower: "list_all isspace (lower s) = list_all isspace s"
  by (simp add: lower_def list_all_iff isspace_lower_char)

lemma process_document_raw_text:
  "raw_text (snd (process_document e input_str self)) =
     (if endswith (strip (lower input_str)) ''.pdf'' then extract_from_pdf e input_str
      else if endswith (strip (lower input_str)) ''.txt'' then extract_from_txt e input_str
      else input_str)"
  by (simp add: process_document_def Let_def)

lemma process_document_ok:
  "fst (process_document e input_str self) \<longleftrightarrow> raw_text (snd (process_document e input_str self)) \<noteq> []"
  by (simp add: process_document_def Let_def)

lemma process_document_failed_state:
  assumes "\<not> fst (process_document e input_str self)"
  shows "sentences (snd (process_document e input_str self)) = [] \<and>
         key_concepts (snd (process_document e input_str self)) = [] \<and>
         faq_pairs (snd (process_document e input_str self)) = []"
  using assms by (simp add: process_document_def Let_def split: if_splits)

text \<open>
  Claim C3, as amended. \<open>process_document\<close> returns failure exactly when the raw text it
  obtained is empty: the input itself, or the text of the file when the input ends in
  \<open>.pdf\<close> or \<open>.txt\<close> (empty when the file cannot be read). After a failure the
  sentences, the concepts and the FAQ pairs are empty and \<open>get_statistics\<close> returns the
  error record; after a success it returns the statistics record. The empty input
  fails; an input made of whitespace only is not empty and succeeds.
\<close>

theorem process_document_failure:
  "(fst (process_document e input_str self) \<longleftrightarrow>
      raw_text (snd (process_document e input_str self)) \<noteq> []) \<and>
   raw_text (snd (process_document e input_str self)) =
     (if endswith (strip (lower input_str)) ''.pdf'' then extract_from_pdf e input_str
      else if endswith (strip (lower input_str)) ''.txt'' then extract_from_txt e input_str
      else input_str) \<and>
   (\<not> fst (process_document e input_str self) \<longrightarrow>
      sentences (snd (process_document e input_str self)) = [] \<and>
      key_concepts (snd (process_document e input_str self)) = [] \<and>
      faq_pairs (snd (process_document e input_str self)) = [] \<and>
      get_statistics e (snd (process_document e input_str self)) =
        Error_record ''No document processed yet.'') \<and>
   (fst (process_document e input_str self) \<longrightarrow>
      (\<exists>st. get_statistics e (snd (process_document e input_str self)) = Statistics st)) \<and>
   \<not> fst (process_document e [] self) \<and>
   (input_str \<noteq> [] \<and> list_all isspace input_str \<longrightarrow> fst (process_document e input_str self))"
proof (intro conjI impI)
  show "fst (process_document e input_str self) \<longleftrightarrow>
      raw_text (snd (process_document e input_str self)) \<noteq> []"
    by (rule process_document_ok)
  show "raw_text (snd (process_document e input_str self)) =
     (if endswith (strip (lower input_str)) ''.pdf'' then extract_from_pdf e input_str
      else if endswith (strip (lower input_str)) ''.txt'' then extract_from_txt e input_str
      else input_str)"
    by (rule process_document_raw_text)
  show "\<not> fst (process_document e [] self)"
    by (simp add: process_document_ok process_document_raw_text lower_def strip_def endswith_def)
next
  assume f: "\<not> fst (process_document e input_str self)"
  then show "sentences (snd (process_document e input_str self)) = []"
    and "key_concepts (snd (process_document e input_str self)) = []"
    and "faq_pairs (snd (process_document e input_str self)) = []"
    using process_document_failed_state by blast+
  from f have "raw_text (snd (process_document e input_str self)) = []"
    by (simp add: process_document_ok)
  then show "get_statistics e (snd (process_document e input_str self)) =
      Error_record ''No document processed yet.''"
    by (simp add: get_statistics_def)
next
  assume "fst (process_document e input_str self)"
  then have "raw_text (snd (process_document e input_str self)) \<noteq> []"
    by (simp add: process_document_ok)
  then show "\<exists>st. get_statistics e (snd (process_document e input_str self)) = Statistics st"
    by (simp add: get_statistics_def)
next
  assume a: "input_str \<noteq> [] \<and> list_all isspace input_str"
  then have "strip (lower input_str) = []"
    by (simp add: strip_all_space list_all_isspace_lower)
  with a show "fst (process_document e input_str self)"
    by (simp add: process_document_ok process_document_raw_text endswith_def)
qed

theorem process_document_failure_witness:
  "\<not> fst (process_document demo_env [] (init demo_env)) \<and>
   get_statistics demo_env (snd (process_document demo_env [] (init demo_env))) =
     Error_record ''No document processed yet.'' \<and>
   fst (process_document demo_env ''notes.txt'' (init demo_env)) = False \<and>
   fst (process_document demo_env ''   '' (init demo_env))"
proof -
  have 1: "\<not> fst (process_document demo_env [] (init demo_env))"
    using process_document_failure [of demo_env "[]" "init demo_env"] by blast
  have 2: "get_statistics demo_env (snd (process_document demo_env [] (init demo_env))) =
     Error_record ''No document processed yet.''"
    using 1 process_document_failure [of demo_env "[]" "init demo_env"] by blast
  have 3: "fst (process_document demo_env ''notes.txt'' (init demo_env)) = False"
    by code_simp
  have h: "''   '' \<noteq> [] \<and> list_all isspace ''   ''" by code_simp
  have 4: "fst (process_document demo_env ''   '' (init demo_env))"
    using h process_document_failure [of demo_env "''   ''" "init demo_env"] by blast
  from 1 2 3 4 show ?thesis by blast
qed

text \<open>
  The claim as stated fails on blank pasted text: three spaces are processed with
  success, and the statistics are those of a document of three characters.
\<close>

theorem process_document_blank_counterexample:
  "\<not> (\<not> fst (process_document demo_env ''   '' (init demo_env)) \<and>
      faq_pairs (snd (process_document demo_env ''   '' (init demo_env))) = [] \<and>
      get_statistics demo_env (snd (process_document demo_env ''   '' (init demo_env))) =
        Error_record ''No document processed yet.'')"
  by code_simp

lemma process_document_frame:
  "process_document e input_str
      (self\<lparr>raw_text := r, sentences := ss, key_concepts := ks, faq_pairs := fs\<rparr>) =
   process_document e input_str self"
  by (simp add: process_document_def Let_def extract_key_concepts_def)

lemma process_document_stop_words:
  "stop_words (snd (process_document e input_str self)) = stop_words self"
  by (simp add: process_document_def Let_def)

text \<open>
  Claim C4. A second call of \<open>process_document\<close> with the same input, on the session
  the first call left, returns the same result: the same FAQ pairs and the same
  statistics. More generally the result does not depend on the four fields a call
  resets. The collaborators are functions, so the files and the tokenizers are the same
  at both calls.
\<close>

theorem process_document_repeat:
  "process_document e input_str (snd (process_document e input_str self)) =
     process_document e input_str self \<and>
   faq_pairs (snd (process_document e input_str (snd (process_document e input_str self)))) =
     faq_pairs (snd (process_document e input_str self)) \<and>
   get_statistics e (snd (process_document e input_str (snd (process_document e input_str self)))) =
     get_statistics e (snd (process_document e input_str self)) \<and>
   process_document e input_str
      (self\<lparr>raw_text := r, sentences := ss, key_concepts := ks, faq_pairs := fs\<rparr>) =
     process_document e input_str self"
proof -
  let ?s1 = "snd (process_document e input_str self)"
  have "?s1 = self\<lparr>raw_text := raw_text ?s1, sentences := sentences ?s1,
      key_concepts := key_concepts ?s1, faq_pairs := faq_pairs ?s1\<rparr>"
    by (simp add: process_document_def Let_def)
  then have "process_document e input_str ?s1 = process_document e input_str self"
    using process_document_frame by metis
  then show ?thesis using process_document_frame by simp
qed


theorem process_document_repeat_witness:
  "faq_pairs (snd (process_document demo_env demo_document
      (snd (process_document demo_env demo_document (init demo_env))))) =
     faq_pairs (snd (process_document demo_env demo_document (init demo_env))) \<and>
   get_statistics demo_env (snd (process_document demo_env demo_document
      (snd (process_document demo_env demo_document (init demo_env))))) =
     get_statistics demo_env (snd (process_document demo_env demo_document (init demo_env))) \<and>
   length (faq_pairs (snd (process_document demo_env demo_document (init demo_env)))) = 9"
proof -
  have n: "length (faq_pairs (snd (process_document demo_env demo_document (init demo_env)))) = 9"
    by code_simp
  from process_document_repeat [of demo_env demo_document "init demo_env"] n
  show ?thesis by blast
qed

lemma dedup_loop_app:
  "dedup_loop (xs @ ys) [] seen =
     dedup_loop xs [] seen @ dedup_loop ys [] (seen \<union> question_key ` set xs)"
proof (induction xs arbitrary: seen)
  case Nil show ?case by simp
next
  case (Cons x xs)
  show ?case
  proof (cases "question_key x \<in> seen")
    case True
    then have "seen \<union> question_key ` set (x # xs) = seen \<union> question_key ` set xs" by auto
    with True Cons [of seen] show ?thesis by simp
  next
    case False
    have u: "seen \<union> question_key ` set (x # xs) = insert (question_key x) seen \<union> question_key ` set xs"
      by auto
    have 1: "dedup_loop ((x # xs) @ ys) [] seen =
        x # dedup_loop (xs @ ys) [] (insert (question_key x) seen)"
      using False dedup_loop_append [of "xs @ ys" "[x]"] by simp
    have 2: "dedup_loop (xs @ ys) [] (insert (question_key x) seen) =
        dedup_loop xs [] (insert (question_key x) seen) @
        dedup_loop ys [] (seen \<union> question_key ` set (x # xs))"
      unfolding u by (rule Cons)
    have 3: "dedup_loop (x # xs) [] seen = x # dedup_loop xs [] (insert (question_key x) seen)"
      using False dedup_loop_append [of xs "[x]"] by simp
    show ?thesis unfolding 1 2 3 by simp
  qed
qed

lemma set_dedup_loop: "set (dedup_loop xs [] seen) \<subseteq> set xs"
  unfolding dedup_loop_positions by auto

lemma filter_dedup_loop_none:
  "\<forall>p\<in>set xs. \<not> Q p \<Longrightarrow> filter Q (dedup_loop xs [] seen) = []"
  using set_dedup_loop [of xs seen] by (auto simp: filter_empty_conv)

lemma dedup_loop_same_key:
  "\<forall>p\<in>set xs. question_key p = k \<Longrightarrow>
     dedup_loop xs [] seen = (if k \<in> seen then [] else take 1 xs)"
proof (induction xs arbitrary: seen)
  case Nil show ?case by simp
next
  case (Cons x xs)
  have kx: "question_key x = k" using Cons.prems by simp
  have rest: "\<forall>p\<in>set xs. question_key p = k" using Cons.prems by simp
  show ?case
  proof (cases "k \<in> seen")
    case True
    with kx Cons.IH [OF rest, of seen] show ?thesis by simp
  next
    case False
    have "dedup_loop (x # xs) [] seen = x # dedup_loop xs [] (insert k seen)"
      using False kx dedup_loop_append [of xs "[x]"] by simp
    with False Cons.IH [OF rest, of "insert k seen"] show ?thesis by simp
  qed
qed

lemma strip_nonspace_ends:
  "s \<noteq> [] \<Longrightarrow> \<not> isspace (hd s) \<Longrightarrow> \<not> isspace (last s) \<Longrightarrow> strip s = s"
  by (rule strip_id) (simp add: no_edge_whitespace_def)

lemma why_key: "question_key \<lparr>question = why_question, answer = a\<rparr> =
    ''why is this concept important in the assignment?''"
proof -
  have "strip (lower why_question) = ''why is this concept important in the assignment?''"
    by code_simp
  then show ?thesis by (simp add: question_key_def)
qed

lemma question_mark_end: "strip (lower (x @ ''?'')) = lower x @ ''?''" if "x \<noteq> []" "\<not> isspace (lower_char (hd x))"
proof -
  have "lower_char CHR ''?'' = CHR ''?''" by code_simp
  then have l: "lower (x @ ''?'') = lower x @ ''?''" by (simp add: lower_def)
  have q: "\<not> isspace CHR ''?''" by code_simp
  have "lower x \<noteq> []" using that by (simp add: lower_def)
  moreover have "hd (lower x @ ''?'') = lower_char (hd x)" using that by (simp add: lower_def hd_map)
  ultimately show ?thesis unfolding l using that q
    by (intro strip_nonspace_ends) auto
qed

lemma lower_char_W: "lower_char CHR ''W'' = CHR ''w''"
  by code_simp

lemma lower_char_H: "lower_char CHR ''H'' = CHR ''h''"
  by code_simp

lemma not_isspace_w: "\<not> isspace CHR ''w''"
  by code_simp

lemma not_isspace_h: "\<not> isspace CHR ''h''"
  by code_simp

lemmas lower_char_simps = lower_char_W lower_char_H not_isspace_w not_isspace_h

lemma definition_question_key:
  assumes q: "question p = ''What is '' @ c @ ''?''"
  shows "question_key p = ''what is '' @ lower c @ ''?''"
proof -
  have "lower ''What is '' = ''what is ''" by code_simp
  then have l: "lower (''What is '' @ c) = ''what is '' @ lower c" by (simp add: lower_def)
  have "strip (lower ((''What is '' @ c) @ ''?'')) = lower (''What is '' @ c) @ ''?''"
    by (rule question_mark_end) (simp_all add: lower_char_simps)
  then show ?thesis unfolding question_key_def q l by simp
qed

lemma how_question_key:
  assumes q: "question p = ''How do you '' @ v @ '' in this context?''"
  shows "\<exists>rest. question_key p = CHR ''h'' # rest"
proof -
  have "strip (lower ((''How do you '' @ v @ '' in this context'') @ ''?'')) =
      lower (''How do you '' @ v @ '' in this context'') @ ''?''"
    by (rule question_mark_end) (simp_all add: lower_char_simps)
  then have "question_key p = lower (''How do you '' @ v @ '' in this context'') @ ''?''"
    unfolding question_key_def q by simp
  then show ?thesis by (simp add: lower_def lower_char_simps)
qed

lemma how_loop_question:
  "p \<in> set (how_loop e ss) \<Longrightarrow> \<exists>v. question p = ''How do you '' @ v @ '' in this context?''"
proof (induction ss)
  case Nil then show ?case by simp
next
  case (Cons s ss)
  show ?case
  proof (cases "map fst (filter (\<lambda>(w, p). startswith p ''VB'')
                  (pos_tag e (word_tokenize e (lower s))))")
    case Nil
    with Cons show ?thesis by (simp add: Let_def)
  next
    case (Cons v vs)
    with Cons.prems have "p = \<lparr>question = ''How do you '' @ v @ '' in this context?'',
        answer = strip s\<rparr> \<or> p \<in> set (how_loop e ss)"
      by (simp add: Let_def)
    with Cons.IH show ?thesis by (elim disjE) (simp, blast)
  qed
qed

lemma generate_why_questions_question:
  "p \<in> set (generate_why_questions e text) \<Longrightarrow> question p = why_question"
  unfolding generate_why_questions_def why_loop_eq by (auto dest!: in_set_takeD)

lemma comparison_pair_not_why: "question (comparison_pair pool cs i) \<noteq> why_question"
  by (simp add: comparison_pair_def Let_def why_question_def)

lemma generate_comparison_questions_not_why:
  "p \<in> set (generate_comparison_questions e text cs) \<Longrightarrow> question p \<noteq> why_question"
  unfolding generate_comparison_questions_def Let_def
  using comparison_pair_not_why by (metis (no_types, lifting) imageE list.set_map)

text \<open>
  Claim C10. After a successful \<open>process_document\<close> the pairs of the final list whose
  question is the fixed why question are the first pair of the why generator, when it
  produced any, and nothing else: the list holds at most one such pair. The questions
  of the definition and how generators have other keys, so the first why pair is
  never dropped, and the later ones share its key.
\<close>

theorem process_document_one_why:
  "fst (process_document e input_str self) \<longrightarrow>
     filter (\<lambda>p. question p = why_question) (faq_pairs (snd (process_document e input_str self))) =
       take 1 (generate_why_questions e
                 (preprocess_text (raw_text (snd (process_document e input_str self))))) \<and>
     length (filter (\<lambda>p. question p = why_question)
               (faq_pairs (snd (process_document e input_str self)))) \<le> 1"
proof
  assume ok: "fst (process_document e input_str self)"
  let ?s = "snd (process_document e input_str self)"
  let ?t = "preprocess_text (raw_text ?s)"
  let ?kc = "extract_key_concepts e self ?t 15"
  let ?D = "generate_definition_questions e ?kc ?t"
  let ?H = "generate_how_questions e ?t"
  let ?W = "generate_why_questions e ?t"
  let ?C = "generate_comparison_questions e ?t ?kc"
  let ?Q = "\<lambda>p. question p = why_question"
  let ?k = "''why is this concept important in the assignment?''"
  have raw: "raw_text ?s \<noteq> []" using ok by (simp add: process_document_ok)
  have faq: "faq_pairs ?s = remove_duplicate_questions (?D @ ?H @ ?W @ ?C)"
    using raw by (simp add: process_document_def Let_def extract_key_concepts_def split: if_splits)
  have D: "\<forall>p\<in>set ?D. \<not> ?Q p \<and> question_key p \<noteq> ?k"
  proof
    fix p assume "p \<in> set ?D"
    then obtain c where q: "question p = ''What is '' @ c @ ''?''"
      unfolding generate_definition_questions_def definition_loop_set by auto
    from q have "\<not> ?Q p" by (simp add: why_question_def)
    moreover from definition_question_key [OF q] have "question_key p \<noteq> ?k" by simp
    ultimately show "\<not> ?Q p \<and> question_key p \<noteq> ?k" by simp
  qed
  have H: "\<forall>p\<in>set ?H. \<not> ?Q p \<and> question_key p \<noteq> ?k"
  proof
    fix p assume "p \<in> set ?H"
    then obtain v where q: "question p = ''How do you '' @ v @ '' in this context?''"
      unfolding generate_how_questions_def Let_def by (auto dest: how_loop_question)
    from q have "\<not> ?Q p" by (simp add: why_question_def)
    moreover from how_question_key [OF q] have "question_key p \<noteq> ?k" by auto
    ultimately show "\<not> ?Q p \<and> question_key p \<noteq> ?k" by simp
  qed
  have W: "\<forall>p\<in>set ?W. ?Q p \<and> question_key p = ?k"
  proof
    fix p assume "p \<in> set ?W"
    then have q: "question p = why_question" by (rule generate_why_questions_question)
    then have "p = \<lparr>question = why_question, answer = answer p\<rparr>" by simp
    then have "question_key p = ?k" using why_key [of "answer p"] by simp
    with q show "?Q p \<and> question_key p = ?k" by simp
  qed
  have C: "\<forall>p\<in>set ?C. \<not> ?Q p"
    by (auto dest: generate_comparison_questions_not_why)
  let ?S2 = "({} \<union> question_key ` set ?D) \<union> question_key ` set ?H"
  have split: "remove_duplicate_questions (?D @ ?H @ ?W @ ?C) =
      dedup_loop ?D [] {} @ dedup_loop ?H [] ({} \<union> question_key ` set ?D) @
      dedup_loop ?W [] ?S2 @ dedup_loop ?C [] (?S2 \<union> question_key ` set ?W)"
    unfolding remove_duplicate_questions_def by (simp only: dedup_loop_app)
  have notin: "?k \<notin> ?S2" using D H by auto
  have w1: "dedup_loop ?W [] ?S2 = take 1 ?W"
    using dedup_loop_same_key [of ?W ?k ?S2] W notin by simp
  have fD: "filter ?Q (dedup_loop ?D [] {}) = []"
    using D by (intro filter_dedup_loop_none) simp
  have fH: "filter ?Q (dedup_loop ?H [] ({} \<union> question_key ` set ?D)) = []"
    using H by (intro filter_dedup_loop_none) simp
  have fC: "filter ?Q (dedup_loop ?C [] (?S2 \<union> question_key ` set ?W)) = []"
    using C by (intro filter_dedup_loop_none) simp
  have fW: "filter ?Q (take 1 ?W) = take 1 ?W"
    using W by (auto simp: filter_id_conv dest: in_set_takeD)
  have "filter ?Q (faq_pairs ?s) = take 1 ?W"
    unfolding faq split by (simp only: filter_append fD fH fC w1 fW append_Nil append_Nil2)
  then show "filter ?Q (faq_pairs ?s) = take 1 ?W \<and> length (filter ?Q (faq_pairs ?s)) \<le> 1"
    by simp
qed

theorem process_document_one_why_witness:
  "fst (process_document demo_env demo_document (init demo_env)) \<and>
   generate_why_questions demo_env (preprocess_text demo_document) =
     [\<lparr>question = why_question, answer = ''Caches help because disks are slow.''\<rparr>,
      \<lparr>question = why_question, answer = ''Use them since latency matters.''\<rparr>] \<and>
   filter (\<lambda>p. question p = why_question)
     (faq_pairs (snd (process_document demo_env demo_document (init demo_env)))) =
     [\<lparr>question = why_question, answer = ''Caches help because disks are slow.''\<rparr>]"
proof -
  have e: "\<not> endswith (strip (lower demo_document)) ''.pdf'' \<and>
      \<not> endswith (strip (lower demo_document)) ''.txt'' \<and> demo_document \<noteq> []"
    by code_simp
  then have r: "raw_text (snd (process_document demo_env demo_document (init demo_env))) = demo_document"
    by (simp add: process_document_raw_text)
  with e have h: "fst (process_document demo_env demo_document (init demo_env))"
    by (simp add: process_document_ok)
  have g: "generate_why_questions demo_env (preprocess_text demo_document) =
     [\<lparr>question = why_question, answer = ''Caches help because disks are slow.''\<rparr>,
      \<lparr>question = why_question, answer = ''Use them since latency matters.''\<rparr>]"
    by code_simp
  from process_document_one_why [of demo_env demo_document "init demo_env"] h
  have "filter (\<lambda>p. question p = why_question)
     (faq_pairs (snd (process_document demo_env demo_document (init demo_env)))) =
     take 1 (generate_why_questions demo_env (preprocess_text demo_document))"
    unfolding r by blast
  with h g show ?thesis by simp
qed

section \<open>The concept extractor\<close>

lemma important_words_eq:
  "important_words sw tags =
     map fst (filter (\<lambda>(word, pos).
                        (prefix ''NN'' pos \<or> prefix ''JJ'' pos \<or> prefix ''VB'' pos) \<and>
                        word \<notin> sw \<and> 2 < length word \<and> isalpha word) tags)"
  by (induction sw tags rule: important_words.induct)
     (simp_all add: important_tag_def startswith_def)

lemma map_fst_counter_add:
  "map fst (counter_add c w) = (if w \<in> fst ` set c then map fst c else map fst c @ [w])"
  by (induction c w rule: counter_add.induct) auto

lemma counter_add_count:
  "distinct (map fst c) \<Longrightarrow>
   (x, n) \<in> set (counter_add c w) \<longleftrightarrow>
     (if x = w then n = Suc (case map_of c w of None \<Rightarrow> 0 | Some k \<Rightarrow> k)
      else (x, n) \<in> set c)"
proof (induction c w rule: counter_add.induct)
  case (1 w) show ?case by auto
next
  case (2 k m kvs w)
  show ?case
  proof (cases "k = w")
    case True
    with 2 show ?thesis by (auto simp: image_iff)
  next
    case False
    with 2 show ?thesis by (auto simp: image_iff)
  qed
qed


lemma first_pos_append: "a \<in> set ws \<Longrightarrow> first_pos (ws @ vs) a = first_pos ws a"
  by (induction ws) (auto simp: first_pos_def)

lemma first_pos_less: "a \<in> set ws \<Longrightarrow> first_pos ws a < length ws"
  by (induction ws) (auto simp: first_pos_def)

lemma first_pos_new: "w \<notin> set ws \<Longrightarrow> first_pos (ws @ [w]) w = length ws"
  by (simp add: first_pos_def takeWhile_append)

lemma counter_inv_step:
  assumes "counter_inv ws c"
  shows "counter_inv (ws @ [w]) (counter_add c w)"
proof -
  from assms have d: "distinct (map fst c)" and s: "set (map fst c) = set ws"
    and n: "\<forall>(x, n)\<in>set c. n = count_list ws x"
    and o: "sorted_wrt (\<lambda>a b. first_pos ws a < first_pos ws b) (map fst c)"
    by (auto simp: counter_inv_def)
  have s': "fst ` set c = set ws" using s by simp
  have 1: "distinct (map fst (counter_add c w))"
    using d by (auto simp: map_fst_counter_add)
  have 2: "set (map fst (counter_add c w)) = set (ws @ [w])"
    using s' by (auto simp: map_fst_counter_add)
  have 3: "\<forall>(x, k)\<in>set (counter_add c w). k = count_list (ws @ [w]) x"
  proof (clarify)
    fix x k assume m: "(x, k) \<in> set (counter_add c w)"
    show "k = count_list (ws @ [w]) x"
    proof (cases "x = w")
      case False
      with m d have "(x, k) \<in> set c" by (simp add: counter_add_count)
      with n False show ?thesis by auto
    next
      case True
      with m d have k: "k = Suc (case map_of c w of None \<Rightarrow> 0 | Some j \<Rightarrow> j)"
        by (simp add: counter_add_count)
      have "(case map_of c w of None \<Rightarrow> 0 | Some j \<Rightarrow> j) = count_list ws w"
      proof (cases "map_of c w")
        case None
        then have "w \<notin> fst ` set c" by (simp add: map_of_eq_None_iff)
        then have "w \<notin> set ws" using s' by simp
        with None show ?thesis by (simp add: count_list_0_iff)
      next
        case (Some j)
        then have "(w, j) \<in> set c" by (rule map_of_SomeD)
        with n Some show ?thesis by auto
      qed
      with k True show ?thesis by simp
    qed
  qed
  have o': "sorted_wrt (\<lambda>a b. first_pos (ws @ [w]) a < first_pos (ws @ [w]) b) (map fst c)"
    using o s by (auto simp: first_pos_append elim!: sorted_wrt_mono_rel [rotated])
  have 4: "sorted_wrt (\<lambda>a b. first_pos (ws @ [w]) a < first_pos (ws @ [w]) b)
      (map fst (counter_add c w))"
  proof (cases "w \<in> fst ` set c")
    case True
    with o' show ?thesis by (simp add: map_fst_counter_add)
  next
    case False
    then have w: "w \<notin> set ws" using s' by simp
    have "\<forall>a\<in>set (map fst c). first_pos (ws @ [w]) a < first_pos (ws @ [w]) w"
      using s w by (auto simp: first_pos_append first_pos_new first_pos_less)
    with o' False show ?thesis by (simp add: map_fst_counter_add sorted_wrt_append)
  qed
  from 1 2 3 4 show ?thesis unfolding counter_inv_def by blast
qed

lemma counter_inv_Counter: "counter_inv ws (Counter ws)"
proof (induction ws rule: rev_induct)
  case Nil show ?case by (simp add: counter_inv_def Counter_def)
next
  case (snoc w ws)
  then show ?case by (simp add: Counter_def counter_inv_step)
qed

lemma sorted_wrt_insort_key:
  assumes "sorted_wrt (\<lambda>a b. f a < f b \<or> (f a = f b \<and> R a b)) ys"
    and "\<forall>y\<in>set ys. R x y"
  shows "sorted_wrt (\<lambda>a b. f a < f b \<or> (f a = f b \<and> R a b)) (insort_key f x ys)"
  using assms
proof (induction ys)
  case Nil then show ?case by simp
next
  case (Cons y ys)
  show ?case
  proof (cases "f x \<le> f y")
    case True
    have "\<forall>z\<in>set (y # ys). f x < f z \<or> (f x = f z \<and> R x z)"
    proof
      fix z assume z: "z \<in> set (y # ys)"
      have "f y \<le> f z" using z Cons.prems(1) by auto
      with True have "f x \<le> f z" by simp
      moreover have "R x z" using z Cons.prems(2) by auto
      ultimately show "f x < f z \<or> (f x = f z \<and> R x z)" by auto
    qed
    with True Cons.prems(1) show ?thesis by simp
  next
    case False
    have "sorted_wrt (\<lambda>a b. f a < f b \<or> (f a = f b \<and> R a b)) (insort_key f x ys)"
      using Cons by simp
    moreover have "\<forall>z\<in>set (insort_key f x ys). f y < f z \<or> (f y = f z \<and> R y z)"
      using False Cons.prems(1) by (auto simp: set_insort_key)
    ultimately show ?thesis using False by simp
  qed
qed

lemma sort_key_stable_wrt:
  "sorted_wrt R xs \<Longrightarrow> sorted_wrt (\<lambda>a b. f a < f b \<or> (f a = f b \<and> R a b)) (sort_key f xs)"
proof (induction xs)
  case Nil show ?case by simp
next
  case (Cons x xs)
  then show ?case by (simp add: sorted_wrt_insort_key)
qed


lemma extract_key_concepts_eq:
  "extract_key_concepts e self text top_n =
     take (nat top_n) (map fst (sort_key (\<lambda>(w, k). - int k) (Counter (kept_tokens e self text))))"
  by (simp add: extract_key_concepts_def Let_def most_common_def important_words_eq
      kept_tokens_def take_map)

lemma ranking_sorted:
  "sorted_wrt (ranks_before ws) (map fst (sort_key (\<lambda>(w, k). - int k) (Counter ws)))"
proof -
  let ?c = "Counter ws" and ?f = "\<lambda>(w, k). - int k"
  have inv: "counter_inv ws ?c" by (rule counter_inv_Counter)
  then have "sorted_wrt (\<lambda>p q. first_pos ws (fst p) < first_pos ws (fst q)) ?c"
    by (simp add: counter_inv_def sorted_wrt_map)
  then have "sorted_wrt (\<lambda>p q. ?f p < ?f q \<or>
       (?f p = ?f q \<and> first_pos ws (fst p) < first_pos ws (fst q))) (sort_key ?f ?c)"
    by (rule sort_key_stable_wrt)
  then have "sorted_wrt (\<lambda>p q. ranks_before ws (fst p) (fst q)) (sort_key ?f ?c)"
  proof (rule sorted_wrt_mono_rel [rotated])
    fix p q
    assume p: "p \<in> set (sort_key ?f ?c)" and q: "q \<in> set (sort_key ?f ?c)"
      and l: "?f p < ?f q \<or> (?f p = ?f q \<and> first_pos ws (fst p) < first_pos ws (fst q))"
    from inv p have cp: "snd p = count_list ws (fst p)" by (auto simp: counter_inv_def)
    from inv q have cq: "snd q = count_list ws (fst q)" by (auto simp: counter_inv_def)
    from l cp cq show "ranks_before ws (fst p) (fst q)"
      by (cases p; cases q) (auto simp: ranks_before_def first_pos_def)
  qed
  then show ?thesis by (simp add: sorted_wrt_map)
qed

lemma ranking_set: "set (map fst (sort_key f (Counter ws))) = set ws"
  using counter_inv_Counter [of ws] by (simp add: counter_inv_def)

lemma ranking_distinct: "distinct (map fst (sort_key f (Counter ws)))"
proof -
  have "distinct (map fst (Counter ws))"
    using counter_inv_Counter [of ws] by (simp add: counter_inv_def)
  then show ?thesis by (simp add: distinct_map)
qed

lemma ranking_length: "length (sort_key f (Counter ws)) = card (set ws)"
proof -
  have d: "distinct (map fst (Counter ws))" and s: "set (map fst (Counter ws)) = set ws"
    using counter_inv_Counter [of ws] by (simp_all add: counter_inv_def)
  have "card (set ws) = length (map fst (Counter ws))"
    using distinct_card [OF d] s by simp
  then show ?thesis by simp
qed

lemma kept_tokens_member:
  "c \<in> set (kept_tokens e self text) \<Longrightarrow>
     \<exists>pos. (c, pos) \<in> set (pos_tag e (word_tokenize e (lower text))) \<and>
           (prefix ''NN'' pos \<or> prefix ''JJ'' pos \<or> prefix ''VB'' pos) \<and>
           c \<notin> stop_words self \<and> 2 < length c \<and> isalpha c"
  unfolding kept_tokens_def by force

text \<open>
  Claim C9. Every concept returned by the concept extractor is the word of a tagged
  token of the lowercased text whose tag begins with \<open>NN\<close>, \<open>JJ\<close> or \<open>VB\<close>, is no stop
  word, is longer than two characters and is alphabetic. The list holds the
  \<open>top_n\<close> first words of the ranking, or all of them when there are fewer (none for a
  negative \<open>top_n\<close>): its length is at most \<open>top_n\<close>, its words are distinct, each ranks
  before the ones behind it (greater frequency, or equal frequency and earlier first
  occurrence), and no kept word left out is more frequent than a returned one.
\<close>

theorem extract_key_concepts_spec:
  "(\<forall>c\<in>set (extract_key_concepts e self text top_n).
      \<exists>pos. (c, pos) \<in> set (pos_tag e (word_tokenize e (lower text))) \<and>
            (prefix ''NN'' pos \<or> prefix ''JJ'' pos \<or> prefix ''VB'' pos) \<and>
            c \<notin> stop_words self \<and> 2 < length c \<and> isalpha c) \<and>
   (0 \<le> top_n \<longrightarrow> int (length (extract_key_concepts e self text top_n)) \<le> top_n) \<and>
   length (extract_key_concepts e self text top_n) =
     min (nat top_n) (card (set (kept_tokens e self text))) \<and>
   distinct (extract_key_concepts e self text top_n) \<and>
   sorted_wrt (ranks_before (kept_tokens e self text)) (extract_key_concepts e self text top_n) \<and>
   (\<forall>w\<in>set (kept_tokens e self text). w \<notin> set (extract_key_concepts e self text top_n) \<longrightarrow>
      (\<forall>c\<in>set (extract_key_concepts e self text top_n).
         count_list (kept_tokens e self text) w \<le> count_list (kept_tokens e self text) c))"
proof -
  let ?ws = "kept_tokens e self text"
  let ?M = "map fst (sort_key (\<lambda>(w, k). - int k) (Counter ?ws))"
  let ?n = "nat top_n"
  have r: "extract_key_concepts e self text top_n = take ?n ?M"
    by (rule extract_key_concepts_eq)
  have sub: "set (take ?n ?M) \<subseteq> set ?ws"
    using set_take_subset [of ?n ?M] ranking_set [of _ ?ws] by blast
  have 1: "\<forall>c\<in>set (take ?n ?M).
      \<exists>pos. (c, pos) \<in> set (pos_tag e (word_tokenize e (lower text))) \<and>
            (prefix ''NN'' pos \<or> prefix ''JJ'' pos \<or> prefix ''VB'' pos) \<and>
            c \<notin> stop_words self \<and> 2 < length c \<and> isalpha c"
    using sub kept_tokens_member by blast
  have lm: "length (Counter ?ws) = card (set ?ws)"
    using ranking_length [of "\<lambda>(w, k). - int k" ?ws] by simp
  have len: "length (take ?n ?M) = min ?n (card (set ?ws))"
    by (simp add: lm min.commute)
  have 2: "0 \<le> top_n \<longrightarrow> int (length (take ?n ?M)) \<le> top_n" by auto
  have 4: "distinct (take ?n ?M)" by (rule distinct_take) (rule ranking_distinct)
  have so: "sorted_wrt (ranks_before ?ws) ?M" by (rule ranking_sorted)
  then have 5: "sorted_wrt (ranks_before ?ws) (take ?n ?M)" by (rule sorted_wrt_take)
  have 6: "\<forall>w\<in>set ?ws. w \<notin> set (take ?n ?M) \<longrightarrow>
      (\<forall>c\<in>set (take ?n ?M). count_list ?ws w \<le> count_list ?ws c)"
  proof (intro ballI impI)
    fix w c assume w: "w \<in> set ?ws" "w \<notin> set (take ?n ?M)" and c: "c \<in> set (take ?n ?M)"
    have "w \<in> set ?M" using w(1) ranking_set [of _ ?ws] by blast
    moreover have "set ?M = set (take ?n ?M) \<union> set (drop ?n ?M)"
      by (metis append_take_drop_id set_append)
    ultimately have wd: "w \<in> set (drop ?n ?M)" using w(2) by blast
    have "sorted_wrt (ranks_before ?ws) (take ?n ?M @ drop ?n ?M)" using so by simp
    then have "ranks_before ?ws c w" using c wd unfolding sorted_wrt_append by blast
    then show "count_list ?ws w \<le> count_list ?ws c" by (auto simp: ranks_before_def)
  qed
  show ?thesis unfolding r using 1 2 len 4 5 6 by blast
qed

theorem extract_key_concepts_spec_witness:
  "(0::int) \<le> 4 \<and>
   pos_tag demo_tag_env (word_tokenize demo_tag_env (lower ''A disk is slow but big.'')) =
     [(''a'', ''NN''), (''disk'', ''NN''), (''is'', ''NN''), (''slow'', ''JJ''), (''but'', ''CC''),
      (''big.'', ''NN'')] \<and>
   extract_key_concepts demo_tag_env (init demo_tag_env) ''A disk is slow but big.'' 4 =
     [''disk'', ''slow''] \<and>
   kept_tokens demo_tag_env (init demo_tag_env) demo_concept_text =
     [''cache'', ''disk'', ''slow'', ''disk'', ''cache'', ''disk''] \<and>
   extract_key_concepts demo_tag_env (init demo_tag_env) demo_concept_text 4 =
     [''disk'', ''cache'', ''slow''] \<and>
   int (length (extract_key_concepts demo_tag_env (init demo_tag_env) demo_concept_text 4)) \<le> 4"
proof -
  have h: "(0::int) \<le> 4" by simp
  have t: "pos_tag demo_tag_env (word_tokenize demo_tag_env (lower ''A disk is slow but big.'')) =
     [(''a'', ''NN''), (''disk'', ''NN''), (''is'', ''NN''), (''slow'', ''JJ''), (''but'', ''CC''),
      (''big.'', ''NN'')]"
    by code_simp
  have s: "extract_key_concepts demo_tag_env (init demo_tag_env) ''A disk is slow but big.'' 4 =
     [''disk'', ''slow'']"
    by code_simp
  have k: "kept_tokens demo_tag_env (init demo_tag_env) demo_concept_text =
     [''cache'', ''disk'', ''slow'', ''disk'', ''cache'', ''disk'']"
    by code_simp
  have v: "extract_key_concepts demo_tag_env (init demo_tag_env) demo_concept_text 4 =
     [''disk'', ''cache'', ''slow'']"
    by code_simp
  from extract_key_concepts_spec [of demo_tag_env "init demo_tag_env" demo_concept_text 4] h
  have "int (length (extract_key_concepts demo_tag_env (init demo_tag_env) demo_concept_text 4)) \<le> 4"
    by blast
  with h t s k v show ?thesis by blast
qed

end
